theory Spec2Isabelle
  imports Main "HOL-Library.Sublist"
begin

section \<open>Strings\<close>

text \<open>
  A JavaScript string is modelled as a \<^typ>\<open>string\<close> (a list of characters). The two
  characters the fence pattern names are the backtick and the line feed; the carriage
  return is the only other line terminator of JavaScript that an 8-bit character can be.
\<close>

abbreviation BACKTICK :: char where
  "BACKTICK \<equiv> CHR 0x60"

abbreviation LF :: char where
  "LF \<equiv> CHR 0x0A"

abbreviation CR :: char where
  "CR \<equiv> CHR 0x0D"

text \<open>\<^verbatim>\<open>s.includes(t)\<close>: does \<open>t\<close> occur in \<open>s\<close> as a contiguous substring?\<close>

fun includes_str :: "string \<Rightarrow> string \<Rightarrow> bool" where
  "includes_str [] t = (t = [])"
| "includes_str (x # xs) t = (prefix t (x # xs) \<or> includes_str xs t)"

text \<open>\<^verbatim>\<open>s.substring(a, b)\<close> for \<open>a \<le> b\<close>.\<close>

definition substring :: "string \<Rightarrow> nat \<Rightarrow> nat \<Rightarrow> string" where
  "substring s a b = take (b - a) (drop a s)"

section \<open>The comment tagger\<close>

text \<open>
  \<^verbatim>\<open>src/generateComment.ts\<close> (and its build \<^verbatim>\<open>dist/generateComment.js\<close>):
  \<^verbatim>\<open>
  export function generateComment(promptName: string, date?: string): string {
    let comment = `// performed \"${promptName}\" review`;
    if (date) {
      comment += ` on ${date}`;
    }
    return comment;
  }
  \<close>
  The optional parameter is a \<^typ>\<open>string option\<close>; \<^verbatim>\<open>if (date)\<close> is false for
  \<^verbatim>\<open>undefined\<close> and for the empty string.
\<close>

definition generateComment :: "string \<Rightarrow> string option \<Rightarrow> string" where
  "generateComment promptName date =
     (let comment = ''// performed \"'' @ promptName @ ''\" review''
      in case date of
           None \<Rightarrow> comment
         | Some d \<Rightarrow> if d \<noteq> [] then comment @ '' on '' @ d else comment)"

text \<open>
  An earlier revision of the same function (the second part of the unnamed source file
  that also holds the earlier extractor, and its build) took the prompt's file name and
  kept only what precedes the first dot: \<^verbatim>\<open>promptFile.split(".")[0]\<close>.
\<close>

definition split_first :: "char \<Rightarrow> string \<Rightarrow> string" where
  "split_first sep s = takeWhile (\<lambda>c. c \<noteq> sep) s"

definition generateComment_split :: "string \<Rightarrow> string option \<Rightarrow> string" where
  "generateComment_split promptFile date =
     (let promptName = split_first (CHR ''.'') promptFile;
          comment = ''// performed \"'' @ promptName @ ''\" review''
      in case date of
           None \<Rightarrow> comment
         | Some d \<Rightarrow> if d \<noteq> [] then comment @ '' on '' @ d else comment)"

section \<open>Regular expressions, as the extractor uses them\<close>

text \<open>
  The extractor is two calls of \<^verbatim>\<open>String.prototype.match\<close> with the regular expression
  literal \<^verbatim>\<open>/```[^\n]*\n(.*?)\n```/\<close>. The pattern is a sequence of nodes: single
  characters, a greedy and a lazy star over a character set, and the two ends of the one
  capture group. The matcher is the backtracking matcher of the language standard: a
  greedy star first tries to take one more character and falls back to the rest of the
  pattern, a lazy star first tries the rest of the pattern and falls back to taking one
  more character.
\<close>

datatype charset =
    Lit char
  | NotLit char
  | Dot

datatype node =
    One charset
  | StarGreedy charset
  | StarLazy charset
  | GroupOpen
  | GroupClose

text \<open>
  Without the \<^verbatim>\<open>s\<close> flag the dot accepts everything but a line terminator; with it,
  everything.
\<close>

fun accepts :: "bool \<Rightarrow> charset \<Rightarrow> char \<Rightarrow> bool" where
  "accepts dotAll (Lit c) x = (x = c)"
| "accepts dotAll (NotLit c) x = (x \<noteq> c)"
| "accepts dotAll Dot x = (dotAll \<or> (x \<noteq> LF \<and> x \<noteq> CR))"

text \<open>
  \<open>run dotAll p s i g c\<close> matches the pattern \<open>p\<close> against \<open>s\<close>, the input from index
  \<open>i\<close> on; \<open>g\<close> is the index at which the capture group was opened and \<open>c\<close> the
  group's extent once closed. The result is the end index of the match and the group.
\<close>

fun run :: "bool \<Rightarrow> node list \<Rightarrow> string \<Rightarrow> nat \<Rightarrow> nat \<Rightarrow> (nat \<times> nat) option
              \<Rightarrow> (nat \<times> (nat \<times> nat) option) option" where
  "run d [] s i g c = Some (i, c)"
| "run d (One cs # p) [] i g c = None"
| "run d (One cs # p) (x # xs) i g c =
     (if accepts d cs x then run d p xs (Suc i) g c else None)"
| "run d (StarGreedy cs # p) [] i g c = run d p [] i g c"
| "run d (StarGreedy cs # p) (x # xs) i g c =
     (if accepts d cs x
      then (case run d (StarGreedy cs # p) xs (Suc i) g c of
              Some r \<Rightarrow> Some r
            | None \<Rightarrow> run d p (x # xs) i g c)
      else run d p (x # xs) i g c)"
| "run d (StarLazy cs # p) [] i g c = run d p [] i g c"
| "run d (StarLazy cs # p) (x # xs) i g c =
     (case run d p (x # xs) i g c of
        Some r \<Rightarrow> Some r
      | None \<Rightarrow> if accepts d cs x then run d (StarLazy cs # p) xs (Suc i) g c else None)"
| "run d (GroupOpen # p) s i g c = run d p s i i c"
| "run d (GroupClose # p) s i g c = run d p s i g (Some (g, i))"

text \<open>
  \<open>search\<close> is the loop of \<^verbatim>\<open>RegExp.prototype.exec\<close>: the first index, from the
  current one on, at which the pattern matches. The result is the index of the match, its
  end index and the capture group.
\<close>

fun search :: "bool \<Rightarrow> node list \<Rightarrow> string \<Rightarrow> nat \<Rightarrow> (nat \<times> nat \<times> (nat \<times> nat) option) option" where
  "search d p [] i =
     (case run d p [] i i None of Some (e, c) \<Rightarrow> Some (i, e, c) | None \<Rightarrow> None)"
| "search d p (x # xs) i =
     (case run d p (x # xs) i i None of
        Some (e, c) \<Rightarrow> Some (i, e, c)
      | None \<Rightarrow> search d p xs (Suc i))"

definition exec :: "bool \<Rightarrow> node list \<Rightarrow> string \<Rightarrow> nat \<Rightarrow> (nat \<times> nat \<times> (nat \<times> nat) option) option" where
  "exec d p inp lastIndex =
     (if length inp < lastIndex then None else search d p (drop lastIndex inp) lastIndex)"

text \<open>
  The loop of \<^verbatim>\<open>String.prototype.match\<close> for a regular expression with the \<^verbatim>\<open>g\<close>
  flag: \<^verbatim>\<open>exec\<close> is called again from the end of the previous match (one further when
  the match was empty) until it fails; the matched substrings are collected.
\<close>

function matchAllFrom :: "bool \<Rightarrow> node list \<Rightarrow> string \<Rightarrow> nat \<Rightarrow> string list" where
  "matchAllFrom d p inp lastIndex =
     (case exec d p inp lastIndex of
        None \<Rightarrow> []
      | Some (i, e, c) \<Rightarrow>
          substring inp i e # matchAllFrom d p inp (if e = i then Suc e else e))"
  by pat_completeness auto
termination
proof -
  have run_bounds: "run d p s i g c = Some (e, c') \<Longrightarrow> i \<le> e \<and> e \<le> i + length s"
    for d p s i g c e c'
  proof (induction d p s i g c arbitrary: e c' rule: run.induct)
    case (3 d cs p x xs i g c)
    then show ?case by (fastforce split: if_splits)
  next
    case (5 d cs p x xs i g c)
    then show ?case by (fastforce split: if_splits option.splits)
  next
    case (7 d cs p x xs i g c)
    then show ?case by (fastforce split: if_splits option.splits)
  qed auto
  have search_bounds: "search d p s i = Some (k, e, c) \<Longrightarrow> i \<le> k \<and> k \<le> e \<and> e \<le> i + length s"
    for d p s i k e c
  proof (induction s arbitrary: i)
    case Nil
    then show ?case by (auto split: option.splits dest: run_bounds)
  next
    case (Cons x xs)
    then show ?case by (fastforce split: option.splits dest: run_bounds)
  qed
  have exec_bounds: "exec d p inp l = Some (k, e, c) \<Longrightarrow> l \<le> k \<and> k \<le> e \<and> e \<le> length inp"
    for d p inp l k e c
    by (fastforce simp: exec_def split: if_splits dest: search_bounds)
  show ?thesis
    by (relation "measure (\<lambda>(d, p, inp, lastIndex). Suc (length inp) - lastIndex)")
       (auto dest!: exec_bounds)
qed

declare matchAllFrom.simps [simp del]

text \<open>
  \<^verbatim>\<open>inp.match(re)\<close>. Without the \<^verbatim>\<open>g\<close> flag the result is \<^verbatim>\<open>null\<close> or the array of
  the first match: the matched substring, then the capture group (\<^verbatim>\<open>undefined\<close>, here
  \<open>None\<close>, for a group that took no part). With the flag it is \<^verbatim>\<open>null\<close> or the array
  of all matched substrings, never an empty array.
\<close>

definition str_match :: "bool \<Rightarrow> node list \<Rightarrow> string \<Rightarrow> string option list option" where
  "str_match d p inp =
     (case exec d p inp 0 of
        None \<Rightarrow> None
      | Some (i, e, c) \<Rightarrow>
          Some [Some (substring inp i e), map_option (\<lambda>(a, b). substring inp a b) c])"

definition str_match_g :: "bool \<Rightarrow> node list \<Rightarrow> string \<Rightarrow> string list option" where
  "str_match_g d p inp =
     (case matchAllFrom d p inp 0 of [] \<Rightarrow> None | m # ms \<Rightarrow> Some (m # ms))"

section \<open>The code block extractor\<close>

text \<open>The pattern \<^verbatim>\<open>```[^\n]*\n(.*?)\n```\<close>, node by node.\<close>

definition fence :: "node list" where
  "fence =
     [One (Lit BACKTICK), One (Lit BACKTICK), One (Lit BACKTICK),
      StarGreedy (NotLit LF), One (Lit LF),
      GroupOpen, StarLazy Dot, GroupClose,
      One (Lit LF), One (Lit BACKTICK), One (Lit BACKTICK), One (Lit BACKTICK)]"

text \<open>
  The one error the extractor throws,
  \<^verbatim>\<open>new Error(`Expected exactly one code block, got ${count ? count.length : 0}`)\<close>,
  is identified by the number in its message. The other two errors are those of the
  collaborators of \<open>processFile\<close>: the file system and the completion service.
\<close>

datatype error =
    ExpectedExactlyOneCodeBlock nat
  | FileError
  | ServiceError

text \<open>
  The extractor as built in \<^verbatim>\<open>dist\<close> (both matches carry the \<^verbatim>\<open>s\<close> flag):
  \<^verbatim>\<open>
  function extractCodeBlock(response) {
      const count = response.match(/```[^\n]*\n(.*?)\n```/gs);
      // s is needed to match newlines
      const match = response.match(/```[^\n]*\n(.*?)\n```/s);
      if (!count || count.length !== 1 || match === null || match.length !== 2) {
          throw new Error(`Expected exactly one code block, got ${count ? count.length : 0}`);
      }
      return match[1];
  }
  \<close>
  The disjunction is evaluated left to right; the returned value is an array element,
  a string or \<^verbatim>\<open>undefined\<close>.
\<close>

definition extractCodeBlock :: "string \<Rightarrow> error + string option" where
  "extractCodeBlock response =
     (let count = str_match_g True fence response;
          match = str_match True fence response
      in case count of
           None \<Rightarrow> Inl (ExpectedExactlyOneCodeBlock 0)
         | Some cs \<Rightarrow>
             if length cs \<noteq> 1 then Inl (ExpectedExactlyOneCodeBlock (length cs))
             else (case match of
                     None \<Rightarrow> Inl (ExpectedExactlyOneCodeBlock (length cs))
                   | Some m \<Rightarrow>
                       if length m \<noteq> 2 then Inl (ExpectedExactlyOneCodeBlock (length cs))
                       else Inr (m ! 1)))"

text \<open>
  The earlier revision of the extractor, in the unnamed TypeScript source, has no
  \<^verbatim>\<open>s\<close> flag and does not look at \<^verbatim>\<open>match\<close> before the final conditional:
  \<^verbatim>\<open>
  export function extractCodeBlock(response: string): string | null {
    const count = response.match(/```[^\n]*\n(.*?)\n```/g);
    const match = response.match(/```[^\n]*\n(.*?)\n```/);
    if (!count || count.length !== 1) {
      throw new Error(`Expected exactly one code block, got ${count ? count.length : 0}`);
    }
    return match ? match[1] : null;
  }
  \<close>
\<close>

definition extractCodeBlock_ts :: "string \<Rightarrow> error + string option" where
  "extractCodeBlock_ts response =
     (let count = str_match_g False fence response;
          match = str_match False fence response
      in case count of
           None \<Rightarrow> Inl (ExpectedExactlyOneCodeBlock 0)
         | Some cs \<Rightarrow>
             if length cs \<noteq> 1 then Inl (ExpectedExactlyOneCodeBlock (length cs))
             else (case match of None \<Rightarrow> Inr None | Some m \<Rightarrow> Inr (m ! 1)))"

section \<open>The orchestrator\<close>

text \<open>
  What \<open>processFile\<close> and \<open>requiresProcessing\<close> take from outside the repository is a
  parameter: today's date as \<^verbatim>\<open>moment().format("YYYY-MM-DD")\<close> gives it, \<^verbatim>\<open>path.extname\<close>,
  and the completion service, which answers a model name and a message with an error or
  with \<^verbatim>\<open>completion.choices[0].message?.content\<close>, a string or nothing.
\<close>

record env =
  today :: string
  extname :: "string \<Rightarrow> string"
  completions_create :: "string \<Rightarrow> string \<Rightarrow> error + string option"

text \<open>
  The state the orchestrator acts on: the content of each file, by path, and the lines
  written to the console.
\<close>

datatype log_entry =
    Skipping string
  | Processing string
  | Finished
  | Failed error

record world =
  files :: "string \<rightharpoonup> string"
  console :: "log_entry list"

definition readFile :: "world \<Rightarrow> string \<Rightarrow> error + string" where
  "readFile w filePath = (case files w filePath of None \<Rightarrow> Inl FileError | Some content \<Rightarrow> Inr content)"

definition writeFile :: "world \<Rightarrow> string \<Rightarrow> string \<Rightarrow> world" where
  "writeFile w filePath content = w\<lparr>files := (files w)(filePath \<mapsto> content)\<rparr>"

definition console_log :: "world \<Rightarrow> log_entry \<Rightarrow> world" where
  "console_log w entry = w\<lparr>console := console w @ [entry]\<rparr>"

text \<open>\<^verbatim>\<open>s.replace(pat, rep)\<close> with a string pattern replaces the first occurrence only.\<close>

fun replace_first :: "string \<Rightarrow> string \<Rightarrow> string \<Rightarrow> string" where
  "replace_first pat rep [] = (if pat = [] then rep else [])"
| "replace_first pat rep (x # xs) =
     (if prefix pat (x # xs) then rep @ drop (length pat) (x # xs)
      else x # replace_first pat rep xs)"

text \<open>A template literal prints an \<^verbatim>\<open>undefined\<close> value as the word.\<close>

definition interpolate :: "string option \<Rightarrow> string" where
  "interpolate v = (case v of None \<Rightarrow> ''undefined'' | Some s \<Rightarrow> s)"

definition sharedPrompt :: string where
  "sharedPrompt =
     ''Please maintain all logic, comments, imports.'' @ [LF] @
     ''Return the response as a code block with no additional explanation.'' @ [LF] @
     ''If no code changes are needed, return the original code block.''"

text \<open>
  \<^verbatim>\<open>
  async function requiresProcessing(filePath, promptName) {
    let fileContent = await readFile(filePath, "utf-8");
    const generatedComment = generateComment(promptName);
    if (fileContent.includes(generatedComment)) {
      return false;
    }
    return true;
  }
  \<close>
\<close>

definition requiresProcessing :: "world \<Rightarrow> string \<Rightarrow> string \<Rightarrow> error + bool" where
  "requiresProcessing w filePath promptName =
     (case readFile w filePath of
        Inl err \<Rightarrow> Inl err
      | Inr fileContent \<Rightarrow>
          (let generatedComment = generateComment promptName None
           in if includes_str fileContent generatedComment then Inr False else Inr True))"

text \<open>
  The text sent to the service:
  \<^verbatim>\<open>`${prompt}\n\n${sharedPrompt}\n\n\`\`\`${extension}\n${fileContent}\`\`\`\n`\<close>.
\<close>

definition buildInput :: "env \<Rightarrow> string \<Rightarrow> string \<Rightarrow> string \<Rightarrow> string" where
  "buildInput ev prompt filePath fileContent =
     (let extension = replace_first ''.'' [] (extname ev filePath)
      in prompt @ [LF, LF] @ sharedPrompt @ [LF, LF] @ ''```'' @ extension @ [LF]
           @ fileContent @ ''```'' @ [LF])"

text \<open>
  \<open>processFile\<close>: everything between the read and the final log line is inside one
  \<^verbatim>\<open>try\<close>, whose \<^verbatim>\<open>catch\<close> logs the error and returns. The write is the statement
  after the call of the extractor.
\<close>

definition processFile :: "env \<Rightarrow> world \<Rightarrow> string \<Rightarrow> string \<Rightarrow> string \<Rightarrow> string \<Rightarrow> world" where
  "processFile ev w filePath prompt promptName gptModel =
     (let date = today ev
      in case readFile w filePath of
           Inl err \<Rightarrow> console_log w (Failed err)
         | Inr fileContent \<Rightarrow>
             (let generatedComment = generateComment promptName (Some date)
              in if includes_str fileContent generatedComment
                 then console_log w (Skipping filePath)
                 else
                   (let input = buildInput ev prompt filePath fileContent;
                        w1 = console_log w (Processing filePath)
                    in case completions_create ev gptModel input of
                         Inl err \<Rightarrow> console_log w1 (Failed err)
                       | Inr content \<Rightarrow>
                           (let response = (case content of None \<Rightarrow> [] | Some r \<Rightarrow> r)
                            in case extractCodeBlock response of
                                 Inl err \<Rightarrow> console_log w1 (Failed err)
                               | Inr extractedCode \<Rightarrow>
                                   (let updatedContent =
                                          generatedComment @ [LF] @ interpolate extractedCode;
                                        w2 = writeFile w1 filePath updatedContent
                                    in console_log w2 Finished)))))"

section \<open>Substring search\<close>

lemma includes_str_iff: "includes_str s t \<longleftrightarrow> (\<exists>pre post. s = pre @ t @ post)"
proof (induction s)
  case Nil
  then show ?case by auto
next
  case (Cons x xs)
  show ?case
  proof
    assume "includes_str (x # xs) t"
    then consider "prefix t (x # xs)" | "includes_str xs t" by auto
    then show "\<exists>pre post. x # xs = pre @ t @ post"
    proof cases
      case 1
      then obtain post where "x # xs = t @ post" by (auto simp: prefix_def)
      then have "x # xs = [] @ t @ post" by simp
      then show ?thesis by blast
    next
      case 2
      with Cons.IH obtain pre post where "xs = pre @ t @ post" by blast
      then have "x # xs = (x # pre) @ t @ post" by simp
      then show ?thesis by blast
    qed
  next
    assume "\<exists>pre post. x # xs = pre @ t @ post"
    then obtain pre post where eq: "x # xs = pre @ t @ post" by blast
    show "includes_str (x # xs) t"
    proof (cases pre)
      case Nil
      with eq have "prefix t (x # xs)" by (simp add: prefix_def)
      then show ?thesis by simp
    next
      case (Cons y ys)
      with eq have "xs = ys @ t @ post" by simp
      with Cons.IH have "includes_str xs t" by blast
      then show ?thesis by simp
    qed
  qed
qed

section \<open>The matcher on the fence pattern\<close>

text \<open>
  What the backtracking matcher does on the pieces of the fence pattern: the three
  backticks, the greedy rest of the opening line, the lazy content and the closing
  newline with its three backticks.
\<close>

lemma run_closing:
  "run d [One (Lit LF), One (Lit BACKTICK), One (Lit BACKTICK), One (Lit BACKTICK)] s i g c =
     (if prefix [LF, BACKTICK, BACKTICK, BACKTICK] s then Some (i + 4, c) else None)"
proof (cases s)
  case Nil
  then show ?thesis by simp
next
  case s1: (Cons a s1)
  show ?thesis
  proof (cases s1)
    case Nil
    with s1 show ?thesis by simp
  next
    case s2: (Cons b s2)
    show ?thesis
    proof (cases s2)
      case Nil
      with s1 s2 show ?thesis by simp
    next
      case s3: (Cons c' s3)
      show ?thesis
      proof (cases s3)
        case Nil
        with s1 s2 s3 show ?thesis by simp
      next
        case (Cons e s4)
        with s1 s2 s3 show ?thesis by simp
      qed
    qed
  qed
qed

lemma run_opening:
  "run d (One (Lit BACKTICK) # One (Lit BACKTICK) # One (Lit BACKTICK) # p) s i g c =
     (if prefix [BACKTICK, BACKTICK, BACKTICK] s then run d p (drop 3 s) (i + 3) g c else None)"
proof (cases s)
  case Nil
  then show ?thesis by simp
next
  case s1: (Cons a s1)
  show ?thesis
  proof (cases s1)
    case Nil
    with s1 show ?thesis by simp
  next
    case s2: (Cons b s2)
    show ?thesis
    proof (cases s2)
      case Nil
      with s1 s2 show ?thesis by simp
    next
      case s3: (Cons c' s3)
      with s1 s2 show ?thesis by (simp add: numeral_3_eq_3)
    qed
  qed
qed

lemma run_greedy_line:
  "LF \<notin> set tag \<Longrightarrow>
   run d (StarGreedy (NotLit LF) # One (Lit LF) # p) (tag @ LF # s) i g c
     = run d p s (i + length tag + 1) g c"
proof (induction tag arbitrary: i)
  case Nil
  then show ?case by simp
next
  case (Cons x tag)
  then have "x \<noteq> LF" "LF \<notin> set tag" by auto
  with Cons.IH[of "Suc i"] show ?case by (simp split: option.splits)
qed

lemma run_greedy_no_newline:
  "LF \<notin> set s \<Longrightarrow> run d (StarGreedy (NotLit LF) # One (Lit LF) # p) s i g c = None"
  by (induction s arbitrary: i) auto

lemma split_at_newline:
  "LF \<in> set s \<Longrightarrow> \<exists>tag rest. s = tag @ LF # rest \<and> LF \<notin> set tag"
  by (metis split_list_first)

lemma closing_not_across:
  assumes "\<not> prefix [LF, BACKTICK, BACKTICK, BACKTICK] (x # body)"
  shows "\<not> prefix [LF, BACKTICK, BACKTICK, BACKTICK] ((x # body) @ [LF, BACKTICK, BACKTICK, BACKTICK] @ post)"
proof (cases body)
  case Nil
  then show ?thesis by simp
next
  case b1: (Cons y b1)
  show ?thesis
  proof (cases b1)
    case Nil
    with b1 show ?thesis by simp
  next
    case b2: (Cons z b2)
    show ?thesis
    proof (cases b2)
      case Nil
      with b1 b2 show ?thesis by simp
    next
      case (Cons u b3)
      with b1 b2 assms show ?thesis by simp
    qed
  qed
qed

lemma run_lazy_found:
  assumes cl: "cl = [One (Lit LF), One (Lit BACKTICK), One (Lit BACKTICK), One (Lit BACKTICK)]"
  shows "\<not> includes_str body [LF, BACKTICK, BACKTICK, BACKTICK] \<Longrightarrow>
   run True (StarLazy Dot # GroupClose # cl)
       (body @ [LF, BACKTICK, BACKTICK, BACKTICK] @ post) i g c
     = Some (i + length body + 4, Some (g, i + length body))"
proof (induction body arbitrary: i)
  case Nil
  then show ?case by (simp add: run_closing[folded cl])
next
  case (Cons x body)
  from Cons.prems have np: "\<not> prefix [LF, BACKTICK, BACKTICK, BACKTICK] (x # body)"
    and ni: "\<not> includes_str body [LF, BACKTICK, BACKTICK, BACKTICK]" by auto
  from closing_not_across[OF np, of post]
  have "run True cl ((x # body) @ [LF, BACKTICK, BACKTICK, BACKTICK] @ post) i g (Some (g, i)) = None"
    by (simp only: run_closing[folded cl] if_False)
  then show ?case using Cons.IH[OF ni, of "Suc i"] by simp
qed

lemma run_lazy_sound:
  assumes cl: "cl = [One (Lit LF), One (Lit BACKTICK), One (Lit BACKTICK), One (Lit BACKTICK)]"
  shows "run d (StarLazy Dot # GroupClose # cl) s i g c = Some (e, c') \<Longrightarrow>
   \<exists>body post. s = body @ [LF, BACKTICK, BACKTICK, BACKTICK] @ post
      \<and> \<not> includes_str body [LF, BACKTICK, BACKTICK, BACKTICK]
      \<and> e = i + length body + 4 \<and> c' = Some (g, i + length body)"
proof (induction s arbitrary: i)
  case Nil
  then show ?case by (simp add: run_closing[folded cl])
next
  case (Cons x s)
  show ?case
  proof (cases "prefix [LF, BACKTICK, BACKTICK, BACKTICK] (x # s)")
    case True
    then obtain post where "x # s = [] @ [LF, BACKTICK, BACKTICK, BACKTICK] @ post"
      by (auto simp: prefix_def)
    moreover from True Cons.prems have "e = i + length ([]::string) + 4" "c' = Some (g, i + length ([]::string))"
      by (auto simp: run_closing[folded cl])
    moreover have "\<not> includes_str [] [LF, BACKTICK, BACKTICK, BACKTICK]" by simp
    ultimately show ?thesis by blast
  next
    case False
    then have "run d cl (x # s) i g (Some (g, i)) = None"
      by (simp only: run_closing[folded cl] if_False)
    with Cons.prems have "run d (StarLazy Dot # GroupClose # cl) s (Suc i) g c = Some (e, c')"
      by (auto split: if_splits)
    from Cons.IH[OF this] obtain body post where
      b: "s = body @ [LF, BACKTICK, BACKTICK, BACKTICK] @ post"
        "\<not> includes_str body [LF, BACKTICK, BACKTICK, BACKTICK]"
        "e = Suc i + length body + 4" "c' = Some (g, Suc i + length body)" by blast
    have "\<not> prefix [LF, BACKTICK, BACKTICK, BACKTICK] (x # body)"
      using False b(1) by (metis append_Cons prefix_prefix)
    with b have "x # s = (x # body) @ [LF, BACKTICK, BACKTICK, BACKTICK] @ post
      \<and> \<not> includes_str (x # body) [LF, BACKTICK, BACKTICK, BACKTICK]
      \<and> e = i + length (x # body) + 4 \<and> c' = Some (g, i + length (x # body))" by simp
    then show ?thesis by blast
  qed
qed

text \<open>
  A match of the whole pattern at an index: the shape of the text there (soundness), and
  the match found on a text of that shape (with the \<^verbatim>\<open>s\<close> flag).
\<close>

lemma run_fence_sound:
  assumes "run d fence s i g c = Some (e, c')"
  shows "\<exists>tag body post.
           s = [BACKTICK, BACKTICK, BACKTICK] @ tag @ LF # body @ [LF, BACKTICK, BACKTICK, BACKTICK] @ post
         \<and> LF \<notin> set tag
         \<and> \<not> includes_str body [LF, BACKTICK, BACKTICK, BACKTICK]
         \<and> e = i + length tag + length body + 8
         \<and> c' = Some (i + length tag + 4, i + length tag + 4 + length body)"
proof -
  define cl where "cl = [One (Lit LF), One (Lit BACKTICK), One (Lit BACKTICK), One (Lit BACKTICK)]"
  have f: "fence = One (Lit BACKTICK) # One (Lit BACKTICK) # One (Lit BACKTICK)
             # StarGreedy (NotLit LF) # One (Lit LF) # GroupOpen # StarLazy Dot # GroupClose # cl"
    by (simp add: fence_def cl_def)
  from assms have op: "prefix [BACKTICK, BACKTICK, BACKTICK] s"
    and r1: "run d (StarGreedy (NotLit LF) # One (Lit LF) # GroupOpen # StarLazy Dot # GroupClose # cl)
               (drop 3 s) (i + 3) g c = Some (e, c')"
    unfolding f run_opening by (auto split: if_splits)
  from op have s: "s = [BACKTICK, BACKTICK, BACKTICK] @ drop 3 s"
    by (auto simp: prefix_def)
  from r1 have "LF \<in> set (drop 3 s)"
    using run_greedy_no_newline by fastforce
  then obtain tag rest where t: "drop 3 s = tag @ LF # rest" "LF \<notin> set tag"
    using split_at_newline by blast
  have j: "i + 3 + length tag + 1 = i + length tag + 4" by simp
  from r1 have "run d (GroupOpen # StarLazy Dot # GroupClose # cl) rest (i + length tag + 4) g c = Some (e, c')"
    unfolding t(1) run_greedy_line[OF t(2)] j .
  then have "run d (StarLazy Dot # GroupClose # cl) rest (i + length tag + 4) (i + length tag + 4) c = Some (e, c')"
    by (simp only: run.simps)
  from run_lazy_sound[OF cl_def this] obtain body post where
    b: "rest = body @ [LF, BACKTICK, BACKTICK, BACKTICK] @ post"
       "\<not> includes_str body [LF, BACKTICK, BACKTICK, BACKTICK]"
       "e = i + length tag + 4 + length body + 4"
       "c' = Some (i + length tag + 4, i + length tag + 4 + length body)" by blast
  from s t(1) b(1) have "s = [BACKTICK, BACKTICK, BACKTICK] @ tag @ LF # body @ [LF, BACKTICK, BACKTICK, BACKTICK] @ post"
    by simp
  with t(2) b show ?thesis by (intro exI[of _ tag] exI[of _ body] exI[of _ post]) simp
qed

lemma run_fence_found:
  assumes "LF \<notin> set tag" and "\<not> includes_str body [LF, BACKTICK, BACKTICK, BACKTICK]"
  shows "run True fence
           ([BACKTICK, BACKTICK, BACKTICK] @ tag @ LF # body @ [LF, BACKTICK, BACKTICK, BACKTICK] @ post) i g c
         = Some (i + length tag + length body + 8,
                 Some (i + length tag + 4, i + length tag + 4 + length body))"
proof -
  define cl where "cl = [One (Lit LF), One (Lit BACKTICK), One (Lit BACKTICK), One (Lit BACKTICK)]"
  have f: "fence = One (Lit BACKTICK) # One (Lit BACKTICK) # One (Lit BACKTICK)
             # StarGreedy (NotLit LF) # One (Lit LF) # GroupOpen # StarLazy Dot # GroupClose # cl"
    by (simp add: fence_def cl_def)
  have j: "i + 3 + length tag + 1 = i + length tag + 4" by simp
  have "run True fence ([BACKTICK, BACKTICK, BACKTICK] @ tag @ LF # body @ [LF, BACKTICK, BACKTICK, BACKTICK] @ post) i g c
      = run True (StarGreedy (NotLit LF) # One (Lit LF) # GroupOpen # StarLazy Dot # GroupClose # cl)
          (tag @ LF # body @ [LF, BACKTICK, BACKTICK, BACKTICK] @ post) (i + 3) g c"
    unfolding f run_opening by simp
  also have "\<dots> = run True (GroupOpen # StarLazy Dot # GroupClose # cl)
          (body @ [LF, BACKTICK, BACKTICK, BACKTICK] @ post) (i + 3 + length tag + 1) g c"
    by (rule run_greedy_line[OF assms(1)])
  also have "\<dots> = run True (StarLazy Dot # GroupClose # cl)
          (body @ [LF, BACKTICK, BACKTICK, BACKTICK] @ post) (i + length tag + 4) (i + length tag + 4) c"
    by (simp only: j run.simps)
  also have "\<dots> = Some (i + length tag + 4 + length body + 4, Some (i + length tag + 4, i + length tag + 4 + length body))"
    by (rule run_lazy_found[OF cl_def assms(2)])
  finally show ?thesis by (simp add: add.assoc)
qed

lemma run_fence_needs_backticks:
  "\<not> prefix [BACKTICK, BACKTICK, BACKTICK] s \<Longrightarrow> run d fence s i g c = None"
  by (simp add: fence_def run_opening)

lemma search_sound:
  "search d p s i = Some (k, e, c) \<Longrightarrow>
   \<exists>pre rest. s = pre @ rest \<and> k = i + length pre \<and> run d p rest k k None = Some (e, c)"
proof (induction s arbitrary: i)
  case Nil
  then show ?case by (auto split: option.splits)
next
  case (Cons x s)
  show ?case
  proof (cases "run d p (x # s) i i None")
    case None
    with Cons.prems have "search d p s (Suc i) = Some (k, e, c)" by simp
    from Cons.IH[OF this] obtain pre rest where
      "s = pre @ rest" "k = Suc i + length pre" "run d p rest k k None = Some (e, c)" by blast
    then have "x # s = (x # pre) @ rest \<and> k = i + length (x # pre) \<and> run d p rest k k None = Some (e, c)"
      by simp
    then show ?thesis by blast
  next
    case (Some r)
    with Cons.prems have "k = i" "r = (e, c)" by (auto split: prod.splits)
    with Some have "x # s = [] @ (x # s) \<and> k = i + length ([]::string) \<and> run d p (x # s) k k None = Some (e, c)"
      by simp
    then show ?thesis by blast
  qed
qed

lemma search_fence_none:
  "\<not> includes_str s [BACKTICK, BACKTICK, BACKTICK] \<Longrightarrow> search d fence s i = None"
proof (induction s arbitrary: i)
  case Nil
  then show ?case by (simp add: run_fence_needs_backticks)
next
  case (Cons x s)
  then show ?case by (simp add: run_fence_needs_backticks)
qed

lemma opening_not_across:
  assumes "\<not> prefix [BACKTICK, BACKTICK, BACKTICK] ((x # pre) @ [BACKTICK, BACKTICK])"
  shows "\<not> prefix [BACKTICK, BACKTICK, BACKTICK] ((x # pre) @ [BACKTICK, BACKTICK, BACKTICK] @ r)"
proof (cases pre)
  case Nil
  with assms show ?thesis by simp
next
  case p1: (Cons y p1)
  show ?thesis
  proof (cases p1)
    case Nil
    with p1 assms show ?thesis by simp
  next
    case (Cons z p2)
    with p1 assms show ?thesis by simp
  qed
qed

lemma search_fence_skip:
  "\<not> includes_str (pre @ [BACKTICK, BACKTICK]) [BACKTICK, BACKTICK, BACKTICK] \<Longrightarrow>
   search d fence (pre @ [BACKTICK, BACKTICK, BACKTICK] @ r) i
     = search d fence ([BACKTICK, BACKTICK, BACKTICK] @ r) (i + length pre)"
proof (induction pre arbitrary: i)
  case Nil
  then show ?case by simp
next
  case (Cons x pre)
  from Cons.prems have np: "\<not> prefix [BACKTICK, BACKTICK, BACKTICK] ((x # pre) @ [BACKTICK, BACKTICK])"
    and ni: "\<not> includes_str (pre @ [BACKTICK, BACKTICK]) [BACKTICK, BACKTICK, BACKTICK]" by auto
  have "run d fence ((x # pre) @ [BACKTICK, BACKTICK, BACKTICK] @ r) i i None = None"
    by (rule run_fence_needs_backticks[OF opening_not_across[OF np]])
  then show ?case using Cons.IH[OF ni, of "Suc i"] by simp
qed

section \<open>The two matches of the extractor\<close>

lemma exec_fence_sound:
  assumes "exec d fence r 0 = Some (i, e, c)"
  shows "\<exists>pre tag body post.
           r = pre @ [BACKTICK, BACKTICK, BACKTICK] @ tag @ LF # body @ [LF, BACKTICK, BACKTICK, BACKTICK] @ post
         \<and> LF \<notin> set tag
         \<and> \<not> includes_str body [LF, BACKTICK, BACKTICK, BACKTICK]
         \<and> i = length pre
         \<and> e = length pre + length tag + length body + 8
         \<and> c = Some (length pre + length tag + 4, length pre + length tag + 4 + length body)"
proof -
  from assms have "search d fence r 0 = Some (i, e, c)" by (simp add: exec_def)
  from search_sound[OF this] obtain pre rest where
    p: "r = pre @ rest" "i = length pre" "run d fence rest i i None = Some (e, c)" by auto
  from run_fence_sound[OF p(3)] obtain tag body post where
    t: "rest = [BACKTICK, BACKTICK, BACKTICK] @ tag @ LF # body @ [LF, BACKTICK, BACKTICK, BACKTICK] @ post"
       "LF \<notin> set tag" "\<not> includes_str body [LF, BACKTICK, BACKTICK, BACKTICK]"
       "e = i + length tag + length body + 8"
       "c = Some (i + length tag + 4, i + length tag + 4 + length body)" by blast
  with p(1,2) show ?thesis
    by (intro exI[of _ pre] exI[of _ tag] exI[of _ body] exI[of _ post]) simp
qed

lemma substring_middle:
  "r = a @ b @ c \<Longrightarrow> i = length a \<Longrightarrow> e = length a + length b \<Longrightarrow> substring r i e = b"
  by (simp add: substring_def)

lemma str_match_fence_sound:
  assumes "str_match d fence r = Some m"
  shows "\<exists>pre tag body post.
           r = pre @ [BACKTICK, BACKTICK, BACKTICK] @ tag @ LF # body @ [LF, BACKTICK, BACKTICK, BACKTICK] @ post
         \<and> LF \<notin> set tag
         \<and> \<not> includes_str body [LF, BACKTICK, BACKTICK, BACKTICK]
         \<and> m = [Some ([BACKTICK, BACKTICK, BACKTICK] @ tag @ LF # body @ [LF, BACKTICK, BACKTICK, BACKTICK]),
                Some body]"
proof -
  from assms obtain i e c where ex: "exec d fence r 0 = Some (i, e, c)"
    and m: "m = [Some (substring r i e), map_option (\<lambda>(a, b). substring r a b) c]"
    by (auto simp: str_match_def split: option.splits)
  from exec_fence_sound[OF ex] obtain pre tag body post where
    t: "r = pre @ [BACKTICK, BACKTICK, BACKTICK] @ tag @ LF # body @ [LF, BACKTICK, BACKTICK, BACKTICK] @ post"
       "LF \<notin> set tag" "\<not> includes_str body [LF, BACKTICK, BACKTICK, BACKTICK]"
       "i = length pre" "e = length pre + length tag + length body + 8"
       "c = Some (length pre + length tag + 4, length pre + length tag + 4 + length body)" by blast
  let ?whole = "[BACKTICK, BACKTICK, BACKTICK] @ tag @ LF # body @ [LF, BACKTICK, BACKTICK, BACKTICK]"
  have w: "substring r i e = ?whole"
    by (rule substring_middle[where a = pre and c = post]) (simp_all add: t(1,4,5))
  have b: "substring r (length pre + length tag + 4) (length pre + length tag + 4 + length body) = body"
    by (rule substring_middle[where a = "pre @ [BACKTICK, BACKTICK, BACKTICK] @ tag @ [LF]"
                                and c = "[LF, BACKTICK, BACKTICK, BACKTICK] @ post"])
       (simp_all add: t(1))
  from m w b t(6) have "m = [Some ?whole, Some body]" by simp
  with t(1,2,3) show ?thesis by blast
qed

lemma str_match_g_None: "str_match_g d p r = None \<longleftrightarrow> exec d p r 0 = None"
  unfolding str_match_g_def
  by (subst matchAllFrom.simps) (auto split: option.splits list.splits)

lemma str_match_None: "str_match d p r = None \<longleftrightarrow> exec d p r 0 = None"
  by (auto simp: str_match_def split: option.splits)

lemma extractCodeBlock_one:
  assumes "length (matchAllFrom True fence r 0) = 1"
  shows "\<exists>w b. str_match True fence r = Some [Some w, Some b] \<and> extractCodeBlock r = Inr (Some b)"
proof -
  from assms obtain m where g: "str_match_g True fence r = Some [m]"
    by (cases "matchAllFrom True fence r 0") (auto simp: str_match_g_def)
  then have "exec True fence r 0 \<noteq> None" using str_match_g_None[of True fence r] by simp
  then obtain ms where ms: "str_match True fence r = Some ms"
    using str_match_None[of True fence r] by auto
  from str_match_fence_sound[OF this] obtain w b where "ms = [Some w, Some b]" by blast
  with g ms show ?thesis by (simp add: extractCodeBlock_def)
qed

lemma extractCodeBlock_not_one:
  assumes "length (matchAllFrom True fence r 0) \<noteq> 1"
  shows "extractCodeBlock r = Inl (ExpectedExactlyOneCodeBlock (length (matchAllFrom True fence r 0)))"
  using assms
  by (cases "matchAllFrom True fence r 0") (auto simp: extractCodeBlock_def str_match_g_def)

lemma extractCodeBlock_ts_one:
  assumes "length (matchAllFrom False fence r 0) = 1"
  shows "\<exists>w b. str_match False fence r = Some [Some w, Some b] \<and> extractCodeBlock_ts r = Inr (Some b)"
proof -
  from assms obtain m where g: "str_match_g False fence r = Some [m]"
    by (cases "matchAllFrom False fence r 0") (auto simp: str_match_g_def)
  then have "exec False fence r 0 \<noteq> None" using str_match_g_None[of False fence r] by simp
  then obtain ms where ms: "str_match False fence r = Some ms"
    using str_match_None[of False fence r] by auto
  from str_match_fence_sound[OF this] obtain w b where "ms = [Some w, Some b]" by blast
  with g ms show ?thesis by (simp add: extractCodeBlock_ts_def)
qed

lemma extractCodeBlock_ts_not_one:
  assumes "length (matchAllFrom False fence r 0) \<noteq> 1"
  shows "extractCodeBlock_ts r = Inl (ExpectedExactlyOneCodeBlock (length (matchAllFrom False fence r 0)))"
  using assms
  by (cases "matchAllFrom False fence r 0") (auto simp: extractCodeBlock_ts_def str_match_g_def)

lemma matchAllFrom_no_fence:
  assumes "\<not> includes_str r [BACKTICK, BACKTICK, BACKTICK]"
  shows "matchAllFrom d fence r 0 = []"
proof -
  from assms have "exec d fence r 0 = None" by (simp add: exec_def search_fence_none)
  then show ?thesis by (subst matchAllFrom.simps) simp
qed

lemma exec_fence_includes_closing:
  assumes "exec d fence r 0 = Some m"
  shows "includes_str r [LF, BACKTICK, BACKTICK, BACKTICK]"
proof -
  obtain i e c where "m = (i, e, c)" by (cases m) auto
  with assms exec_fence_sound[of d r i e c] obtain pre tag body post where
    "r = pre @ [BACKTICK, BACKTICK, BACKTICK] @ tag @ LF # body @ [LF, BACKTICK, BACKTICK, BACKTICK] @ post"
    by blast
  then have "r = (pre @ [BACKTICK, BACKTICK, BACKTICK] @ tag @ LF # body) @ [LF, BACKTICK, BACKTICK, BACKTICK] @ post"
    by simp
  then show ?thesis unfolding includes_str_iff by blast
qed

lemma matchAllFrom_no_closing:
  assumes "\<not> includes_str r [LF, BACKTICK, BACKTICK, BACKTICK]"
  shows "matchAllFrom d fence r 0 = []"
proof -
  from assms exec_fence_includes_closing[of d r] have "exec d fence r 0 = None"
    by (cases "exec d fence r 0") auto
  then show ?thesis by (subst matchAllFrom.simps) simp
qed

lemma exec_fence_found:
  assumes "\<not> includes_str (pre @ [BACKTICK, BACKTICK]) [BACKTICK, BACKTICK, BACKTICK]"
    and "LF \<notin> set tag"
    and "\<not> includes_str body [LF, BACKTICK, BACKTICK, BACKTICK]"
  shows "exec True fence
           (pre @ [BACKTICK, BACKTICK, BACKTICK] @ tag @ LF # body @ [LF, BACKTICK, BACKTICK, BACKTICK] @ post) 0
         = Some (length pre, length pre + length tag + length body + 8,
                 Some (length pre + length tag + 4, length pre + length tag + 4 + length body))"
proof -
  let ?rest = "tag @ LF # body @ [LF, BACKTICK, BACKTICK, BACKTICK] @ post"
  have "exec True fence (pre @ [BACKTICK, BACKTICK, BACKTICK] @ ?rest) 0
          = search True fence ([BACKTICK, BACKTICK, BACKTICK] @ ?rest) (length pre)"
    using search_fence_skip[OF assms(1), of True ?rest 0] by (simp add: exec_def)
  also have "\<dots> = search True fence (BACKTICK # ([BACKTICK, BACKTICK] @ ?rest)) (length pre)"
    by simp
  also have "\<dots> = Some (length pre, length pre + length tag + length body + 8,
                 Some (length pre + length tag + 4, length pre + length tag + 4 + length body))"
    using run_fence_found[OF assms(2,3), of post "length pre" "length pre" None]
    by (simp only: search.simps append_Cons append_Nil option.case prod.case)
  finally show ?thesis .
qed

section \<open>The scenarios of the test suite\<close>

text \<open>
  C6: the first test of the extractor. On the text \<^verbatim>\<open>Here is some text\<close>, a fenced block
  tagged \<^verbatim>\<open>typescript\<close> holding the line \<^verbatim>\<open>code block\<close>, and the text \<^verbatim>\<open>More text\<close>,
  each on a line of its own, the extractor returns exactly \<^verbatim>\<open>code block\<close>. Both revisions
  of the extractor do.
\<close>

theorem extractCodeBlock_scenario_1:
  "extractCodeBlock
     (''Here is some text'' @ [LF] @ ''```typescript'' @ [LF] @ ''code block'' @ [LF]
        @ ''```'' @ [LF] @ ''More text'')
     = Inr (Some ''code block'')
   \<and> extractCodeBlock_ts
     (''Here is some text'' @ [LF] @ ''```typescript'' @ [LF] @ ''code block'' @ [LF]
        @ ''```'' @ [LF] @ ''More text'')
     = Inr (Some ''code block'')"
  by code_simp

text \<open>
  The second test of the extractor: the whole text is one fenced block of twenty lines,
  with nothing before the opening fence and nothing after the closing one. The built
  extractor returns the lines between the fences.
\<close>

lemma extractCodeBlock_scenario_swift:
  "extractCodeBlock
    (''```swift'' @ [LF] @
     ''//'' @ [LF] @
     ''//  SplitButton.swift'' @ [LF] @
     ''//  Workouts'' @ [LF] @
     ''//'' @ [LF] @
     ''//  Created by Torben Sko on 9/12/2024.'' @ [LF] @
     ''//'' @ [LF] @
     [] @ [LF] @
     ''import SwiftUI'' @ [LF] @
     [] @ [LF] @
     ''/// @Deprecated Created as an experiment for BetweenExercisesButtonView'' @ [LF] @
     ''struct SplitButton: View {'' @ [LF] @
     ''    let leftTitle: String'' @ [LF] @
     ''    ...'' @ [LF] @
     ''}'' @ [LF] @
     [] @ [LF] @
     ''#Preview {'' @ [LF] @
     ''    SplitButton_Preview()'' @ [LF] @
     ''}'' @ [LF] @
     ''```'')
   = Inr (Some
    (''//'' @ [LF] @
     ''//  SplitButton.swift'' @ [LF] @
     ''//  Workouts'' @ [LF] @
     ''//'' @ [LF] @
     ''//  Created by Torben Sko on 9/12/2024.'' @ [LF] @
     ''//'' @ [LF] @
     [] @ [LF] @
     ''import SwiftUI'' @ [LF] @
     [] @ [LF] @
     ''/// @Deprecated Created as an experiment for BetweenExercisesButtonView'' @ [LF] @
     ''struct SplitButton: View {'' @ [LF] @
     ''    let leftTitle: String'' @ [LF] @
     ''    ...'' @ [LF] @
     ''}'' @ [LF] @
     [] @ [LF] @
     ''#Preview {'' @ [LF] @
     ''    SplitButton_Preview()'' @ [LF] @
     ''}''))"
  by code_simp

text \<open>
  The earlier revision, whose dot stops at a newline, finds no block as soon as the
  content has two lines; the flag \<^verbatim>\<open>s\<close> was added for this.
\<close>

lemma extractCodeBlock_ts_rejects_two_lines:
  "extractCodeBlock_ts (''```'' @ [LF] @ ''a'' @ [LF] @ ''b'' @ [LF] @ ''```'') = Inl (ExpectedExactlyOneCodeBlock 0)
   \<and> extractCodeBlock (''```'' @ [LF] @ ''a'' @ [LF] @ ''b'' @ [LF] @ ''```'') = Inr (Some (''a'' @ [LF] @ ''b''))"
  by code_simp

section \<open>The cardinality rule\<close>

text \<open>
  C1: the extractor throws exactly when the number of matches that the global search of
  the fence pattern collects (they do not overlap: each search starts where the previous
  match ended) is not one, and the error it throws carries that number, zero when nothing
  matched. A text in which no three backticks follow one another has no match, so the
  extractor throws with the count zero on it; it neither returns nor throws anything
  else. This holds for the built extractor and for its earlier revision.
\<close>

theorem extractCodeBlock_fails_iff_count:
  "((\<exists>e. extractCodeBlock r = Inl e) \<longleftrightarrow> length (matchAllFrom True fence r 0) \<noteq> 1)
   \<and> (\<forall>e. extractCodeBlock r = Inl e \<longrightarrow>
          e = ExpectedExactlyOneCodeBlock (length (matchAllFrom True fence r 0)))
   \<and> (\<not> includes_str r ''```'' \<longrightarrow>
          matchAllFrom True fence r 0 = [] \<and> extractCodeBlock r = Inl (ExpectedExactlyOneCodeBlock 0))
   \<and> ((\<exists>e. extractCodeBlock_ts r = Inl e) \<longleftrightarrow> length (matchAllFrom False fence r 0) \<noteq> 1)
   \<and> (\<forall>e. extractCodeBlock_ts r = Inl e \<longrightarrow>
          e = ExpectedExactlyOneCodeBlock (length (matchAllFrom False fence r 0)))
   \<and> (\<not> includes_str r ''```'' \<longrightarrow>
          matchAllFrom False fence r 0 = [] \<and> extractCodeBlock_ts r = Inl (ExpectedExactlyOneCodeBlock 0))"
proof -
  have a: "(\<exists>e. extractCodeBlock r = Inl e) \<longleftrightarrow> length (matchAllFrom True fence r 0) \<noteq> 1"
    using extractCodeBlock_one[of r] extractCodeBlock_not_one[of r]
    by (cases "length (matchAllFrom True fence r 0) = 1") auto
  have b: "\<forall>e. extractCodeBlock r = Inl e \<longrightarrow>
          e = ExpectedExactlyOneCodeBlock (length (matchAllFrom True fence r 0))"
    using extractCodeBlock_one[of r] extractCodeBlock_not_one[of r]
    by (cases "length (matchAllFrom True fence r 0) = 1") auto
  have c: "\<not> includes_str r ''```'' \<longrightarrow>
          matchAllFrom True fence r 0 = [] \<and> extractCodeBlock r = Inl (ExpectedExactlyOneCodeBlock 0)"
    using matchAllFrom_no_fence[of r True] extractCodeBlock_not_one[of r] by auto
  have a': "(\<exists>e. extractCodeBlock_ts r = Inl e) \<longleftrightarrow> length (matchAllFrom False fence r 0) \<noteq> 1"
    using extractCodeBlock_ts_one[of r] extractCodeBlock_ts_not_one[of r]
    by (cases "length (matchAllFrom False fence r 0) = 1") auto
  have b': "\<forall>e. extractCodeBlock_ts r = Inl e \<longrightarrow>
          e = ExpectedExactlyOneCodeBlock (length (matchAllFrom False fence r 0))"
    using extractCodeBlock_ts_one[of r] extractCodeBlock_ts_not_one[of r]
    by (cases "length (matchAllFrom False fence r 0) = 1") auto
  have c': "\<not> includes_str r ''```'' \<longrightarrow>
          matchAllFrom False fence r 0 = [] \<and> extractCodeBlock_ts r = Inl (ExpectedExactlyOneCodeBlock 0)"
    using matchAllFrom_no_fence[of r False] extractCodeBlock_ts_not_one[of r] by auto
  from a b c a' b' c' show ?thesis by blast
qed

theorem extractCodeBlock_fails_iff_count_witness:
  "\<not> includes_str ''Just some text without code'' ''```''
   \<and> extractCodeBlock ''Just some text without code'' = Inl (ExpectedExactlyOneCodeBlock 0)
   \<and> extractCodeBlock_ts ''Just some text without code'' = Inl (ExpectedExactlyOneCodeBlock 0)
   \<and> length (matchAllFrom True fence ''Just some text without code'' 0) = 0"
proof -
  have h: "\<not> includes_str ''Just some text without code'' ''```''" by simp
  from extractCodeBlock_fails_iff_count[of "''Just some text without code''"] h
  show ?thesis by simp
qed

text \<open>The third test: two fenced blocks are counted as two, and the extractor throws.\<close>

lemma extractCodeBlock_scenario_3:
  "extractCodeBlock
     (''Here is some text'' @ [LF] @ ''```typescript'' @ [LF] @ ''first block'' @ [LF] @ ''```'' @ [LF]
        @ ''More text'' @ [LF] @ ''```typescript'' @ [LF] @ ''second block'' @ [LF] @ ''```'')
     = Inl (ExpectedExactlyOneCodeBlock 2)"
  by code_simp

text \<open>
  C9: when the global search yields exactly one match, the search without the \<^verbatim>\<open>g\<close>
  flag yields that same match, with its capture group present. So the extractor never
  throws with the count one, the conditional of the earlier revision never returns
  \<^verbatim>\<open>null\<close>, and either revision throws the block-count error or returns a string.
\<close>

theorem extractCodeBlock_single_match_has_group:
  "(\<forall>m. str_match_g d fence r = Some [m] \<longrightarrow> (\<exists>b. str_match d fence r = Some [Some m, Some b]))
   \<and> extractCodeBlock r \<noteq> Inl (ExpectedExactlyOneCodeBlock 1)
   \<and> extractCodeBlock_ts r \<noteq> Inr None
   \<and> ((\<exists>n. extractCodeBlock r = Inl (ExpectedExactlyOneCodeBlock n)) \<or> (\<exists>b. extractCodeBlock r = Inr (Some b)))
   \<and> ((\<exists>n. extractCodeBlock_ts r = Inl (ExpectedExactlyOneCodeBlock n)) \<or> (\<exists>b. extractCodeBlock_ts r = Inr (Some b)))"
proof -
  have a: "\<exists>b. str_match d fence r = Some [Some m, Some b]" if g: "str_match_g d fence r = Some [m]" for m
  proof -
    from g have ne: "exec d fence r 0 \<noteq> None" using str_match_g_None[of d fence r] by simp
    then obtain i e c where ex: "exec d fence r 0 = Some (i, e, c)" by auto
    from ne obtain ms where ms: "str_match d fence r = Some ms"
      using str_match_None[of d fence r] by auto
    from str_match_fence_sound[OF ms] obtain w b where wb: "ms = [Some w, Some b]" by blast
    from ms wb ex have w: "w = substring r i e" by (simp add: str_match_def)
    have "matchAllFrom d fence r 0 = [m]"
      using g by (auto simp: str_match_g_def split: list.splits)
    then have "m = substring r i e"
      by (subst (asm) matchAllFrom.simps) (simp add: ex)
    with w wb ms show ?thesis by simp
  qed
  have b: "extractCodeBlock r \<noteq> Inl (ExpectedExactlyOneCodeBlock 1)"
    using extractCodeBlock_one[of r] extractCodeBlock_not_one[of r]
    by (cases "length (matchAllFrom True fence r 0) = 1") auto
  have c: "extractCodeBlock_ts r \<noteq> Inr None"
    using extractCodeBlock_ts_one[of r] extractCodeBlock_ts_not_one[of r]
    by (cases "length (matchAllFrom False fence r 0) = 1") auto
  have d: "(\<exists>n. extractCodeBlock r = Inl (ExpectedExactlyOneCodeBlock n)) \<or> (\<exists>b. extractCodeBlock r = Inr (Some b))"
    using extractCodeBlock_one[of r] extractCodeBlock_not_one[of r]
    by (cases "length (matchAllFrom True fence r 0) = 1") auto
  have e: "(\<exists>n. extractCodeBlock_ts r = Inl (ExpectedExactlyOneCodeBlock n)) \<or> (\<exists>b. extractCodeBlock_ts r = Inr (Some b))"
    using extractCodeBlock_ts_one[of r] extractCodeBlock_ts_not_one[of r]
    by (cases "length (matchAllFrom False fence r 0) = 1") auto
  from a b c d e show ?thesis by blast
qed

theorem extractCodeBlock_single_match_has_group_witness:
  "str_match_g True fence (''```'' @ [LF] @ ''a'' @ [LF] @ ''```'') = Some [''```'' @ [LF] @ ''a'' @ [LF] @ ''```'']
   \<and> (\<exists>b. str_match True fence (''```'' @ [LF] @ ''a'' @ [LF] @ ''```'')
            = Some [Some (''```'' @ [LF] @ ''a'' @ [LF] @ ''```''), Some b])"
proof -
  have h: "str_match_g True fence (''```'' @ [LF] @ ''a'' @ [LF] @ ''```'') = Some [''```'' @ [LF] @ ''a'' @ [LF] @ ''```'']"
    by code_simp
  from extractCodeBlock_single_match_has_group[of True "''```'' @ [LF] @ ''a'' @ [LF] @ ''```''"] h
  show ?thesis by blast
qed

text \<open>
  C10: on the five lines \<^verbatim>\<open>```\<close>, \<^verbatim>\<open>a\<close>, \<^verbatim>\<open>```\<close>, \<^verbatim>\<open>prose\<close>, \<^verbatim>\<open>```\<close> the
  extractor returns \<^verbatim>\<open>a\<close>: the global search collects the one complete match, and the
  last fence line, which nothing closes, is not counted.
\<close>

theorem extractCodeBlock_trailing_fence:
  "extractCodeBlock (''```'' @ [LF] @ ''a'' @ [LF] @ ''```'' @ [LF] @ ''prose'' @ [LF] @ ''```'')
     = Inr (Some ''a'')
   \<and> extractCodeBlock_ts (''```'' @ [LF] @ ''a'' @ [LF] @ ''```'' @ [LF] @ ''prose'' @ [LF] @ ''```'')
     = Inr (Some ''a'')
   \<and> str_match_g True fence (''```'' @ [LF] @ ''a'' @ [LF] @ ''```'' @ [LF] @ ''prose'' @ [LF] @ ''```'')
     = Some [''```'' @ [LF] @ ''a'' @ [LF] @ ''```'']"
  by code_simp

section \<open>Where a block is recognised\<close>

lemma extractCodeBlock_Inr_shape:
  assumes "extractCodeBlock r = Inr v"
  shows "\<exists>pre tag body post.
           r = pre @ ''```'' @ tag @ [LF] @ body @ [LF] @ ''```'' @ post
         \<and> LF \<notin> set tag \<and> \<not> includes_str body (LF # ''```'') \<and> v = Some body"
proof -
  have one: "length (matchAllFrom True fence r 0) = 1"
    using assms extractCodeBlock_not_one[of r] by (cases "length (matchAllFrom True fence r 0) = 1") auto
  from extractCodeBlock_one[OF one] obtain w b where
    m: "str_match True fence r = Some [Some w, Some b]" and v: "extractCodeBlock r = Inr (Some b)"
    by blast
  from str_match_fence_sound[OF m] obtain pre tag body post where
    "r = pre @ [BACKTICK, BACKTICK, BACKTICK] @ tag @ LF # body @ [LF, BACKTICK, BACKTICK, BACKTICK] @ post"
    "LF \<notin> set tag" "\<not> includes_str body [LF, BACKTICK, BACKTICK, BACKTICK]" "b = body" by auto
  with v assms show ?thesis
    by (intro exI[of _ pre] exI[of _ tag] exI[of _ body] exI[of _ post]) simp
qed

lemma extractCodeBlock_ts_Inr_shape:
  assumes "extractCodeBlock_ts r = Inr v"
  shows "\<exists>pre tag body post.
           r = pre @ ''```'' @ tag @ [LF] @ body @ [LF] @ ''```'' @ post
         \<and> LF \<notin> set tag \<and> \<not> includes_str body (LF # ''```'') \<and> v = Some body"
proof -
  have one: "length (matchAllFrom False fence r 0) = 1"
    using assms extractCodeBlock_ts_not_one[of r] by (cases "length (matchAllFrom False fence r 0) = 1") auto
  from extractCodeBlock_ts_one[OF one] obtain w b where
    m: "str_match False fence r = Some [Some w, Some b]" and v: "extractCodeBlock_ts r = Inr (Some b)"
    by blast
  from str_match_fence_sound[OF m] obtain pre tag body post where
    "r = pre @ [BACKTICK, BACKTICK, BACKTICK] @ tag @ LF # body @ [LF, BACKTICK, BACKTICK, BACKTICK] @ post"
    "LF \<notin> set tag" "\<not> includes_str body [LF, BACKTICK, BACKTICK, BACKTICK]" "b = body" by auto
  with v assms show ?thesis
    by (intro exI[of _ pre] exI[of _ tag] exI[of _ body] exI[of _ post]) simp
qed

text \<open>
  C5, as the code has it: the extractor returns a content only from a text that holds a
  triple backtick (anywhere, not only at the start of a line), the rest of that line, a
  newline, the content, and a newline immediately followed by a triple backtick (whatever
  follows the latter on its line); the content is framed by the two newlines. A text in
  which no newline is immediately followed by a triple backtick, such as a block glued to
  its closing fence, counts as zero blocks. Both revisions of the extractor agree on this.
\<close>

theorem extractCodeBlock_newline_framing:
  "(\<forall>v. extractCodeBlock r = Inr v \<longrightarrow>
       (\<exists>pre tag body post.
           r = pre @ ''```'' @ tag @ [LF] @ body @ [LF] @ ''```'' @ post
         \<and> LF \<notin> set tag \<and> \<not> includes_str body (LF # ''```'') \<and> v = Some body))
   \<and> (\<not> includes_str r (LF # ''```'') \<longrightarrow> extractCodeBlock r = Inl (ExpectedExactlyOneCodeBlock 0))
   \<and> (\<forall>v. extractCodeBlock_ts r = Inr v \<longrightarrow>
       (\<exists>pre tag body post.
           r = pre @ ''```'' @ tag @ [LF] @ body @ [LF] @ ''```'' @ post
         \<and> LF \<notin> set tag \<and> \<not> includes_str body (LF # ''```'') \<and> v = Some body))
   \<and> (\<not> includes_str r (LF # ''```'') \<longrightarrow> extractCodeBlock_ts r = Inl (ExpectedExactlyOneCodeBlock 0))"
proof -
  have b: "extractCodeBlock r = Inl (ExpectedExactlyOneCodeBlock 0)"
    if "\<not> includes_str r (LF # ''```'')"
    using that matchAllFrom_no_closing[of r True] extractCodeBlock_not_one[of r] by simp
  have b': "extractCodeBlock_ts r = Inl (ExpectedExactlyOneCodeBlock 0)"
    if "\<not> includes_str r (LF # ''```'')"
    using that matchAllFrom_no_closing[of r False] extractCodeBlock_ts_not_one[of r] by simp
  from extractCodeBlock_Inr_shape[of r] extractCodeBlock_ts_Inr_shape[of r] b b'
  show ?thesis by blast
qed

theorem extractCodeBlock_newline_framing_witness:
  "\<not> includes_str ''Here: ```const x = 1;``` done'' (LF # ''```'')
   \<and> extractCodeBlock ''Here: ```const x = 1;``` done'' = Inl (ExpectedExactlyOneCodeBlock 0)
   \<and> extractCodeBlock (''```ts'' @ [LF] @ ''x'' @ [LF] @ ''```'') = Inr (Some ''x'')
   \<and> (\<exists>pre tag body post.
         ''```ts'' @ [LF] @ ''x'' @ [LF] @ ''```'' = pre @ ''```'' @ tag @ [LF] @ body @ [LF] @ ''```'' @ post
         \<and> LF \<notin> set tag \<and> \<not> includes_str body (LF # ''```'') \<and> Some ''x'' = Some body)"
proof -
  have h1: "\<not> includes_str ''Here: ```const x = 1;``` done'' (LF # ''```'')" by simp
  have h2: "extractCodeBlock (''```ts'' @ [LF] @ ''x'' @ [LF] @ ''```'') = Inr (Some ''x'')" by code_simp
  from extractCodeBlock_newline_framing[of "''Here: ```const x = 1;``` done''"] h1
  have a: "extractCodeBlock ''Here: ```const x = 1;``` done'' = Inl (ExpectedExactlyOneCodeBlock 0)"
    by blast
  from extractCodeBlock_newline_framing[of "''```ts'' @ [LF] @ ''x'' @ [LF] @ ''```''"] h2
  have b: "\<exists>pre tag body post.
         ''```ts'' @ [LF] @ ''x'' @ [LF] @ ''```'' = pre @ ''```'' @ tag @ [LF] @ body @ [LF] @ ''```'' @ post
         \<and> LF \<notin> set tag \<and> \<not> includes_str body (LF # ''```'') \<and> Some ''x'' = Some body"
    by blast
  from h1 h2 a b show ?thesis by blast
qed

text \<open>
  The fences need not be lines of their own: with text before the opening fence on its
  line and text after the closing fence on its line, the block is recognised all the same.
  The pattern has no anchor.
\<close>

theorem extractCodeBlock_fence_inside_lines:
  "extractCodeBlock (''x ```'' @ [LF] @ ''a'' @ [LF] @ ''```y'') = Inr (Some ''a'')
   \<and> extractCodeBlock_ts (''x ```'' @ [LF] @ ''a'' @ [LF] @ ''```y'') = Inr (Some ''a'')"
  by code_simp

section \<open>The marker\<close>

lemma includes_str_length: "includes_str s t \<Longrightarrow> length t \<le> length s"
  by (auto simp: includes_str_iff)

lemma includes_str_self_append: "includes_str (pre @ t @ post) t"
  unfolding includes_str_iff by blast

lemma includes_str_trans:
  assumes "includes_str s t" and "includes_str t u"
  shows "includes_str s u"
proof -
  from assms obtain a b c d where "s = a @ t @ b" "t = c @ u @ d"
    unfolding includes_str_iff by blast
  then have "s = (a @ c) @ u @ (d @ b)" by simp
  then show ?thesis unfolding includes_str_iff by blast
qed

lemma generateComment_dated:
  "d \<noteq> [] \<Longrightarrow> generateComment n (Some d) = generateComment n None @ '' on '' @ d"
  by (simp add: generateComment_def)

text \<open>
  C3, as the code has it: the marker is the fixed text around the name, taken as it is
  (dots included), followed by \<^verbatim>\<open> on \<close> and the date when a date is given and is not the
  empty string; with no date, or with the empty string as date, nothing follows.
\<close>

theorem generateComment_format:
  "generateComment name None = ''// performed \"'' @ name @ ''\" review''
   \<and> generateComment name (Some []) = ''// performed \"'' @ name @ ''\" review''
   \<and> (date \<noteq> [] \<longrightarrow>
        generateComment name (Some date) = ''// performed \"'' @ name @ ''\" review on '' @ date)
   \<and> generateComment ''a.b.c'' None = ''// performed \"a.b.c\" review''"
  by (simp add: generateComment_def)

theorem generateComment_format_witness:
  "''2023-10-01'' \<noteq> []
   \<and> generateComment ''example'' (Some ''2023-10-01'') = ''// performed \"example\" review on 2023-10-01''
   \<and> generateComment ''example'' None = ''// performed \"example\" review''"
  using generateComment_format[of "''example''" "''2023-10-01''"] by simp

text \<open>
  An empty string is a date that is present, and the marker built for it is the dateless
  one: the test \<^verbatim>\<open>if (date)\<close> is false for it.
\<close>

theorem generateComment_empty_date:
  "generateComment ''example'' (Some []) = ''// performed \"example\" review''
   \<and> generateComment ''example'' (Some []) \<noteq> ''// performed \"example\" review on '' @ []"
  by (simp add: generateComment_def)

text \<open>The earlier revision of the marker builder cut the name at its first dot.\<close>

lemma generateComment_split_truncates:
  "generateComment_split ''a.b.c'' None = ''// performed \"a\" review''"
  by (simp add: generateComment_split_def split_first_def)

text \<open>
  C4, as the code has it: for a date that is not empty, the dated marker differs from the
  dateless one and does not occur in it, so a search for the dated marker tells the two
  apart; the dateless marker, however, occurs in the dated one, so a search for the
  dateless marker finds it in a content that holds only the dated marker.
\<close>

theorem markers_distinguishable_one_way:
  "date \<noteq> [] \<longrightarrow>
     generateComment name (Some date) \<noteq> generateComment name None
   \<and> \<not> includes_str (generateComment name None) (generateComment name (Some date))
   \<and> includes_str (generateComment name (Some date)) (generateComment name None)"
proof
  assume d: "date \<noteq> []"
  have e: "generateComment name (Some date) = generateComment name None @ '' on '' @ date"
    by (rule generateComment_dated[OF d])
  have 1: "generateComment name (Some date) \<noteq> generateComment name None"
    unfolding e by simp
  have "length (generateComment name None) < length (generateComment name (Some date))"
    unfolding e by simp
  then have 2: "\<not> includes_str (generateComment name None) (generateComment name (Some date))"
    using includes_str_length by fastforce
  have "generateComment name (Some date) = [] @ generateComment name None @ ('' on '' @ date)"
    unfolding e by simp
  then have 3: "includes_str (generateComment name (Some date)) (generateComment name None)"
    unfolding includes_str_iff by blast
  from 1 2 3 show "generateComment name (Some date) \<noteq> generateComment name None
   \<and> \<not> includes_str (generateComment name None) (generateComment name (Some date))
   \<and> includes_str (generateComment name (Some date)) (generateComment name None)" by blast
qed

theorem markers_distinguishable_one_way_witness:
  "''2023-10-01'' \<noteq> []
   \<and> \<not> includes_str (generateComment ''example'' None) (generateComment ''example'' (Some ''2023-10-01''))
   \<and> includes_str (generateComment ''example'' (Some ''2023-10-01'')) (generateComment ''example'' None)"
  using markers_distinguishable_one_way[of "''2023-10-01''" "''example''"] by simp

text \<open>
  A file that holds only the marker dated 2023-10-01 contains the dateless marker, and
  \<open>requiresProcessing\<close> answers that it needs no processing.
\<close>

theorem dateless_marker_found_in_dated_content:
  "includes_str (generateComment ''example'' (Some ''2023-10-01'') @ [LF] @ ''const x = 1;'')
                (generateComment ''example'' None)
   \<and> requiresProcessing
        \<lparr>files = [''a.ts'' \<mapsto> generateComment ''example'' (Some ''2023-10-01'') @ [LF] @ ''const x = 1;''],
         console = []\<rparr> ''a.ts'' ''example'' = Inr False"
  by (simp add: generateComment_def requiresProcessing_def readFile_def)

text \<open>
  C8: for a date that is not empty, the dateless marker is a strict prefix of the dated
  one, which is the dateless marker followed by \<^verbatim>\<open> on \<close> and the date. Hence a content
  that contains the dated marker contains the dateless one, and \<open>requiresProcessing\<close>,
  which searches the file for the dateless marker, answers \<open>false\<close> for a file that holds
  a marker of any date.
\<close>

theorem dateless_marker_prefix_of_dated:
  assumes "date \<noteq> []"
  shows "strict_prefix (generateComment name None) (generateComment name (Some date))
       \<and> generateComment name (Some date) = generateComment name None @ '' on '' @ date
       \<and> (\<forall>content. includes_str content (generateComment name (Some date))
             \<longrightarrow> includes_str content (generateComment name None))
       \<and> (\<forall>w filePath content. files w filePath = Some content
             \<and> includes_str content (generateComment name (Some date))
             \<longrightarrow> requiresProcessing w filePath name = Inr False)"
proof -
  have e: "generateComment name (Some date) = generateComment name None @ '' on '' @ date"
    by (rule generateComment_dated[OF assms])
  have 1: "strict_prefix (generateComment name None) (generateComment name (Some date))"
    unfolding e by (simp add: strict_prefix_def)
  have "includes_str (generateComment name (Some date)) (generateComment name None)"
    using includes_str_self_append[of "[]" "generateComment name None" "'' on '' @ date"]
    unfolding e by simp
  then have 3: "includes_str content (generateComment name None)"
    if "includes_str content (generateComment name (Some date))" for content
    using that includes_str_trans by blast
  have 4: "requiresProcessing w filePath name = Inr False"
    if "files w filePath = Some content \<and> includes_str content (generateComment name (Some date))"
    for w filePath content
    using that 3[of content] by (simp add: requiresProcessing_def readFile_def)
  from 1 e 3 4 show ?thesis by blast
qed

theorem dateless_marker_prefix_of_dated_witness:
  "''2023-10-01'' \<noteq> []
   \<and> strict_prefix (generateComment ''example'' None) (generateComment ''example'' (Some ''2023-10-01''))
   \<and> requiresProcessing
        \<lparr>files = [''a.ts'' \<mapsto> generateComment ''example'' (Some ''2023-10-01'') @ [LF] @ ''const x = 1;''],
         console = []\<rparr> ''a.ts'' ''example'' = Inr False"
proof -
  have h: "''2023-10-01'' \<noteq> []" by simp
  have f: "files \<lparr>files = [''a.ts'' \<mapsto> generateComment ''example'' (Some ''2023-10-01'') @ [LF] @ ''const x = 1;''],
         console = []\<rparr> ''a.ts'' = Some (generateComment ''example'' (Some ''2023-10-01'') @ [LF] @ ''const x = 1;'')"
    by simp
  have i: "includes_str (generateComment ''example'' (Some ''2023-10-01'') @ [LF] @ ''const x = 1;'')
             (generateComment ''example'' (Some ''2023-10-01''))"
    using includes_str_self_append[of "[]" "generateComment ''example'' (Some ''2023-10-01'')" "[LF] @ ''const x = 1;''"]
    by simp
  from dateless_marker_prefix_of_dated[OF h, of "''example''"] f i h
  show ?thesis by blast
qed

section \<open>No write without an extracted block\<close>

lemma files_console_log: "files (console_log w entry) = files w"
  by (simp add: console_log_def)

lemma processFile_files_cases:
  "files (processFile ev w filePath prompt promptName gptModel) = files w
   \<or> (\<exists>fileContent content code.
         readFile w filePath = Inr fileContent
       \<and> \<not> includes_str fileContent (generateComment promptName (Some (today ev)))
       \<and> completions_create ev gptModel (buildInput ev prompt filePath fileContent) = Inr content
       \<and> extractCodeBlock (case content of None \<Rightarrow> [] | Some r \<Rightarrow> r) = Inr code
       \<and> files (processFile ev w filePath prompt promptName gptModel)
           = (files w)(filePath \<mapsto> generateComment promptName (Some (today ev)) @ [LF] @ interpolate code))"
  by (auto simp: processFile_def Let_def files_console_log writeFile_def
           split: sum.splits option.splits)

text \<open>
  C7: when the extractor throws on the response obtained for a file, \<open>processFile\<close>
  leaves the content of every file as it was, and logs the error after the line that
  announced the processing. Conversely, when \<open>processFile\<close> changes the files at all,
  the file was read, the service answered and the extractor returned: the write comes
  only after the extraction has succeeded.
\<close>

theorem processFile_keeps_file_on_extraction_error:
  "(\<forall>fileContent content err.
       readFile w filePath = Inr fileContent
     \<and> completions_create ev gptModel (buildInput ev prompt filePath fileContent) = Inr content
     \<and> extractCodeBlock (case content of None \<Rightarrow> [] | Some r \<Rightarrow> r) = Inl err
     \<longrightarrow> files (processFile ev w filePath prompt promptName gptModel) = files w
       \<and> (\<not> includes_str fileContent (generateComment promptName (Some (today ev)))
            \<longrightarrow> processFile ev w filePath prompt promptName gptModel
                  = console_log (console_log w (Processing filePath)) (Failed err)))
   \<and> (files (processFile ev w filePath prompt promptName gptModel) \<noteq> files w \<longrightarrow>
        (\<exists>fileContent content code.
           readFile w filePath = Inr fileContent
         \<and> completions_create ev gptModel (buildInput ev prompt filePath fileContent) = Inr content
         \<and> extractCodeBlock (case content of None \<Rightarrow> [] | Some r \<Rightarrow> r) = Inr code))"
proof -
  have a: "files (processFile ev w filePath prompt promptName gptModel) = files w
       \<and> (\<not> includes_str fileContent (generateComment promptName (Some (today ev)))
            \<longrightarrow> processFile ev w filePath prompt promptName gptModel
                  = console_log (console_log w (Processing filePath)) (Failed err))"
    if "readFile w filePath = Inr fileContent
     \<and> completions_create ev gptModel (buildInput ev prompt filePath fileContent) = Inr content
     \<and> extractCodeBlock (case content of None \<Rightarrow> [] | Some r \<Rightarrow> r) = Inl err"
    for fileContent content err
    using that by (simp add: processFile_def Let_def files_console_log)
  have b: "\<exists>fileContent content code.
           readFile w filePath = Inr fileContent
         \<and> completions_create ev gptModel (buildInput ev prompt filePath fileContent) = Inr content
         \<and> extractCodeBlock (case content of None \<Rightarrow> [] | Some r \<Rightarrow> r) = Inr code"
    if "files (processFile ev w filePath prompt promptName gptModel) \<noteq> files w"
    using that processFile_files_cases[of ev w filePath prompt promptName gptModel] by blast
  from a b show ?thesis by blast
qed

theorem processFile_keeps_file_on_extraction_error_witness:
  "readFile \<lparr>files = [''a.ts'' \<mapsto> ''const x = 1;''], console = []\<rparr> ''a.ts'' = Inr ''const x = 1;''
   \<and> extractCodeBlock ''Sorry, no code'' = Inl (ExpectedExactlyOneCodeBlock 0)
   \<and> files (processFile
        \<lparr>today = ''2023-10-01'', extname = (\<lambda>p. ''.ts''),
         completions_create = (\<lambda>m i. Inr (Some ''Sorry, no code''))\<rparr>
        \<lparr>files = [''a.ts'' \<mapsto> ''const x = 1;''], console = []\<rparr>
        ''a.ts'' ''Tidy up'' ''tidy'' ''gpt-4o-mini'')
      = [''a.ts'' \<mapsto> ''const x = 1;'']
   \<and> console (processFile
        \<lparr>today = ''2023-10-01'', extname = (\<lambda>p. ''.ts''),
         completions_create = (\<lambda>m i. Inr (Some ''Sorry, no code''))\<rparr>
        \<lparr>files = [''a.ts'' \<mapsto> ''const x = 1;''], console = []\<rparr>
        ''a.ts'' ''Tidy up'' ''tidy'' ''gpt-4o-mini'')
      = [Processing ''a.ts'', Failed (ExpectedExactlyOneCodeBlock 0)]"
proof -
  let ?w = "\<lparr>files = [''a.ts'' \<mapsto> ''const x = 1;''], console = []\<rparr>"
  let ?ev = "\<lparr>today = ''2023-10-01'', extname = (\<lambda>p. ''.ts''),
         completions_create = (\<lambda>m i. Inr (Some ''Sorry, no code''))\<rparr>"
  have r: "readFile ?w ''a.ts'' = Inr ''const x = 1;''" by (simp add: readFile_def)
  have c: "completions_create ?ev ''gpt-4o-mini'' (buildInput ?ev ''Tidy up'' ''a.ts'' ''const x = 1;'')
             = Inr (Some ''Sorry, no code'')" by simp
  have x: "extractCodeBlock (case Some ''Sorry, no code'' of None \<Rightarrow> [] | Some r \<Rightarrow> r)
             = Inl (ExpectedExactlyOneCodeBlock 0)" by code_simp
  have n: "\<not> includes_str ''const x = 1;'' (generateComment ''tidy'' (Some (today ?ev)))"
    by (simp add: generateComment_def)
  from processFile_keeps_file_on_extraction_error[of ?w "''a.ts''" ?ev "''gpt-4o-mini''" "''Tidy up''" "''tidy''"]
    r c x n
  have "files (processFile ?ev ?w ''a.ts'' ''Tidy up'' ''tidy'' ''gpt-4o-mini'') = files ?w
      \<and> processFile ?ev ?w ''a.ts'' ''Tidy up'' ''tidy'' ''gpt-4o-mini''
          = console_log (console_log ?w (Processing ''a.ts'')) (Failed (ExpectedExactlyOneCodeBlock 0))"
    by blast
  with r x show ?thesis by (simp add: console_log_def)
qed

text \<open>The write itself: the marker of today, a newline, and the extracted content.\<close>

lemma processFile_writes_on_success:
  assumes "readFile w filePath = Inr fileContent"
    and "\<not> includes_str fileContent (generateComment promptName (Some (today ev)))"
    and "completions_create ev gptModel (buildInput ev prompt filePath fileContent) = Inr content"
    and "extractCodeBlock (case content of None \<Rightarrow> [] | Some r \<Rightarrow> r) = Inr code"
  shows "files (processFile ev w filePath prompt promptName gptModel)
           = (files w)(filePath \<mapsto> generateComment promptName (Some (today ev)) @ [LF] @ interpolate code)"
  using assms by (simp add: processFile_def Let_def files_console_log writeFile_def)

section \<open>The extracted content\<close>

text \<open>
  The first place at which a string occurs in a text, and what the matcher finds on any
  text that holds a triple backtick, a newline further on and, after that, a newline with
  a triple backtick: a match, at that triple backtick or before it.
\<close>

lemma first_occurrence:
  "includes_str s t \<Longrightarrow> t \<noteq> [] \<Longrightarrow>
   \<exists>a c. s = a @ t @ c \<and> \<not> includes_str (a @ butlast t) t"
proof (induction s)
  case Nil
  then show ?case by simp
next
  case (Cons x xs)
  show ?case
  proof (cases "prefix t (x # xs)")
    case True
    then obtain c where "x # xs = [] @ t @ c" by (auto simp: prefix_def)
    moreover have "\<not> includes_str ([] @ butlast t) t"
      using includes_str_length[of "butlast t" t] Cons.prems(2) by (cases t) auto
    ultimately show ?thesis by blast
  next
    case False
    with Cons.prems have "includes_str xs t" by simp
    from Cons.IH[OF this Cons.prems(2)] obtain a c where
      ac: "xs = a @ t @ c" "\<not> includes_str (a @ butlast t) t" by blast
    have "prefix (x # a @ butlast t) (x # xs)"
    proof -
      have "x # xs = (x # a @ butlast t) @ (last t # c)"
        using ac(1) Cons.prems(2) by simp
      then show ?thesis by (metis prefixI)
    qed
    with False have "\<not> prefix t (x # a @ butlast t)"
      using prefix_order.trans by blast
    with ac(2) have "\<not> includes_str ((x # a) @ butlast t) t" by simp
    moreover have "x # xs = (x # a) @ t @ c" using ac(1) by simp
    ultimately show ?thesis by blast
  qed
qed

lemma includes_str_append_left: "includes_str s t \<Longrightarrow> includes_str (s @ u) t"
proof -
  assume "includes_str s t"
  then obtain a c where "s = a @ t @ c" unfolding includes_str_iff by blast
  then have "s @ u = a @ t @ (c @ u)" by simp
  then show ?thesis unfolding includes_str_iff by blast
qed

lemma after_first_newline:
  assumes "t @ LF # y = m @ LF # w" and "LF \<notin> set t"
  shows "\<exists>m'. y = m' @ w"
proof -
  from assms(1) obtain u where
    "(t = m @ u \<and> u @ LF # y = LF # w) \<or> (t @ u = m \<and> LF # y = u @ LF # w)"
    by (auto simp: append_eq_append_conv2)
  then show ?thesis
  proof
    assume h: "t = m @ u \<and> u @ LF # y = LF # w"
    show ?thesis
    proof (cases u)
      case Nil
      with h have "y = [] @ w" by simp
      then show ?thesis by blast
    next
      case (Cons z zs)
      with h have "z = LF" by simp
      with Cons h assms(2) show ?thesis by simp
    qed
  next
    assume h: "t @ u = m \<and> LF # y = u @ LF # w"
    show ?thesis
    proof (cases u)
      case Nil
      with h have "y = [] @ w" by simp
      then show ?thesis by blast
    next
      case (Cons z zs)
      with h have "y = zs @ LF # w" by simp
      then have "y = (zs @ [LF]) @ w" by simp
      then show ?thesis by blast
    qed
  qed
qed

lemma run_fence_complete:
  "run True fence ([BACKTICK, BACKTICK, BACKTICK] @ m @ LF # b @ [LF, BACKTICK, BACKTICK, BACKTICK] @ c) i g c0 \<noteq> None"
proof -
  let ?CL = "[LF, BACKTICK, BACKTICK, BACKTICK]"
  let ?x = "m @ LF # b @ ?CL @ c"
  have "LF \<in> set ?x" by simp
  then obtain t y where ty: "?x = t @ LF # y" "LF \<notin> set t"
    using split_at_newline by blast
  from after_first_newline[OF ty(1)[symmetric] ty(2)] obtain m' where "y = m' @ b @ ?CL @ c"
    by blast
  then have "y = (m' @ b) @ ?CL @ c" by simp
  then have "includes_str y ?CL" unfolding includes_str_iff by blast
  from first_occurrence[OF this] obtain b' c' where
    bc: "y = b' @ ?CL @ c'" "\<not> includes_str (b' @ butlast ?CL) ?CL" by auto
  from bc(2) have nb: "\<not> includes_str b' ?CL" using includes_str_append_left by blast
  have "[BACKTICK, BACKTICK, BACKTICK] @ ?x = [BACKTICK, BACKTICK, BACKTICK] @ t @ LF # b' @ ?CL @ c'"
    using ty(1) bc(1) by simp
  then show ?thesis using run_fence_found[OF ty(2) nb, of c' i g c0] by simp
qed

lemma search_complete:
  "(\<And>i. run d p s' i i None \<noteq> None) \<Longrightarrow> search d p (a @ s') i \<noteq> None"
proof (induction a arbitrary: i)
  case Nil
  from Nil[of i] obtain r where r: "run d p s' i i None = Some r" by auto
  show ?case by (cases s'; cases r) (use r in auto)
next
  case (Cons x a)
  have "search d p (a @ s') (Suc i) \<noteq> None" by (rule Cons.IH) (rule Cons.prems)
  then show ?case by (auto split: option.splits)
qed

lemma search_minimal:
  "search d p s i = Some (k, e, c) \<Longrightarrow>
   \<exists>pre rest. s = pre @ rest \<and> k = i + length pre \<and> run d p rest k k None = Some (e, c)
     \<and> (\<forall>a b. pre = a @ b \<and> b \<noteq> [] \<longrightarrow> run d p (b @ rest) (i + length a) (i + length a) None = None)"
proof (induction s arbitrary: i)
  case Nil
  then show ?case by (auto split: option.splits)
next
  case (Cons x s)
  show ?case
  proof (cases "run d p (x # s) i i None")
    case None
    with Cons.prems have "search d p s (Suc i) = Some (k, e, c)" by simp
    from Cons.IH[OF this] obtain pre rest where
      pr: "s = pre @ rest" "k = Suc i + length pre" "run d p rest k k None = Some (e, c)"
      and mn: "\<forall>a b. pre = a @ b \<and> b \<noteq> [] \<longrightarrow> run d p (b @ rest) (Suc i + length a) (Suc i + length a) None = None"
      by blast
    have "run d p (b @ rest) (i + length a) (i + length a) None = None"
      if ab: "x # pre = a @ b" "b \<noteq> []" for a b
    proof (cases a)
      case Nil
      with ab have "b @ rest = x # s" using pr(1) by simp
      with None Nil show ?thesis by simp
    next
      case (Cons y ys)
      with ab have "pre = ys @ b" by simp
      with mn ab(2) have "run d p (b @ rest) (Suc i + length ys) (Suc i + length ys) None = None" by blast
      with Cons show ?thesis by simp
    qed
    with pr have "x # s = (x # pre) @ rest \<and> k = i + length (x # pre) \<and> run d p rest k k None = Some (e, c)
       \<and> (\<forall>a b. x # pre = a @ b \<and> b \<noteq> [] \<longrightarrow> run d p (b @ rest) (i + length a) (i + length a) None = None)"
      by simp
    then show ?thesis by blast
  next
    case (Some r)
    with Cons.prems have "k = i" "r = (e, c)" by (auto split: prod.splits)
    with Some have "x # s = [] @ (x # s) \<and> k = i + length ([]::string) \<and> run d p (x # s) k k None = Some (e, c)
      \<and> (\<forall>a b. ([]::string) = a @ b \<and> b \<noteq> [] \<longrightarrow> run d p (b @ (x # s)) (i + length a) (i + length a) None = None)"
      by simp
    then show ?thesis by blast
  qed
qed

lemma search_fence_no_block:
  assumes "\<not> (\<exists>a m b c. post = a @ [BACKTICK, BACKTICK, BACKTICK] @ m @ LF # b @ [LF, BACKTICK, BACKTICK, BACKTICK] @ c)"
  shows "search d fence post i = None"
proof (rule ccontr)
  assume "search d fence post i \<noteq> None"
  then obtain k e c where "search d fence post i = Some (k, e, c)" by auto
  from search_sound[OF this] obtain pre rest where
    p: "post = pre @ rest" "run d fence rest k k None = Some (e, c)" by blast
  from run_fence_sound[OF p(2)] obtain tag body post' where
    "rest = [BACKTICK, BACKTICK, BACKTICK] @ tag @ LF # body @ [LF, BACKTICK, BACKTICK, BACKTICK] @ post'"
    by blast
  with p(1) have "post = pre @ [BACKTICK, BACKTICK, BACKTICK] @ tag @ LF # body @ [LF, BACKTICK, BACKTICK, BACKTICK] @ post'"
    by simp
  with assms show False by blast
qed

lemma search_fence_block:
  "search True fence (a @ [BACKTICK, BACKTICK, BACKTICK] @ m @ LF # b @ [LF, BACKTICK, BACKTICK, BACKTICK] @ c) i \<noteq> None"
  by (rule search_complete) (rule run_fence_complete)

text \<open>
  The extractor on a text cut at its first triple backtick, and on a text cut at a later
  triple backtick of the same line; then the converse, that every text on which the
  extractor returns is cut in this way.
\<close>

lemma matchAllFrom_one_block:
  assumes "\<not> includes_str (pre @ [BACKTICK, BACKTICK]) [BACKTICK, BACKTICK, BACKTICK]"
    and "LF \<notin> set tag"
    and "\<not> includes_str body [LF, BACKTICK, BACKTICK, BACKTICK]"
    and "\<not> (\<exists>a m b c. post = a @ [BACKTICK, BACKTICK, BACKTICK] @ m @ LF # b @ [LF, BACKTICK, BACKTICK, BACKTICK] @ c)"
  shows "length (matchAllFrom True fence
           (pre @ [BACKTICK, BACKTICK, BACKTICK] @ tag @ LF # body @ [LF, BACKTICK, BACKTICK, BACKTICK] @ post) 0) = 1"
proof -
  let ?inp = "pre @ [BACKTICK, BACKTICK, BACKTICK] @ tag @ LF # body @ [LF, BACKTICK, BACKTICK, BACKTICK] @ post"
  let ?e = "length pre + length tag + length body + 8"
  have "?inp = (pre @ [BACKTICK, BACKTICK, BACKTICK] @ tag @ LF # body @ [LF, BACKTICK, BACKTICK, BACKTICK]) @ post"
    by simp
  moreover have "length (pre @ [BACKTICK, BACKTICK, BACKTICK] @ tag @ LF # body @ [LF, BACKTICK, BACKTICK, BACKTICK]) = ?e"
    by simp
  ultimately have d: "drop ?e ?inp = post" by (metis append_eq_conv_conj)
  have "length ?inp = ?e + length post" by simp
  then have "exec True fence ?inp ?e = search True fence post ?e"
    unfolding exec_def d by simp
  then have nxt: "exec True fence ?inp ?e = None"
    by (simp add: search_fence_no_block[OF assms(4)])
  have "matchAllFrom True fence ?inp ?e = []"
    by (subst matchAllFrom.simps) (simp only: nxt option.case)
  moreover have "?e \<noteq> length pre" by simp
  ultimately have "matchAllFrom True fence ?inp 0 = [substring ?inp (length pre) ?e]"
    by (subst matchAllFrom.simps) (simp only: exec_fence_found[OF assms(1,2,3)] option.case prod.case if_False)
  then show ?thesis by simp
qed

lemma extractCodeBlock_first_block:
  assumes "\<not> includes_str (pre @ [BACKTICK, BACKTICK]) [BACKTICK, BACKTICK, BACKTICK]"
    and "LF \<notin> set tag"
    and "\<not> includes_str body [LF, BACKTICK, BACKTICK, BACKTICK]"
    and "\<not> (\<exists>a m b c. post = a @ [BACKTICK, BACKTICK, BACKTICK] @ m @ LF # b @ [LF, BACKTICK, BACKTICK, BACKTICK] @ c)"
  shows "extractCodeBlock
           (pre @ [BACKTICK, BACKTICK, BACKTICK] @ tag @ LF # body @ [LF, BACKTICK, BACKTICK, BACKTICK] @ post)
         = Inr (Some body)"
proof -
  let ?inp = "pre @ [BACKTICK, BACKTICK, BACKTICK] @ tag @ LF # body @ [LF, BACKTICK, BACKTICK, BACKTICK] @ post"
  from extractCodeBlock_one[OF matchAllFrom_one_block[OF assms]]
  obtain w b where m: "str_match True fence ?inp = Some [Some w, Some b]"
    and r: "extractCodeBlock ?inp = Inr (Some b)" by blast
  have b: "substring ?inp (length pre + length tag + 4) (length pre + length tag + 4 + length body) = body"
    by (rule substring_middle[where a = "pre @ [BACKTICK, BACKTICK, BACKTICK] @ tag @ [LF]"
                                and c = "[LF, BACKTICK, BACKTICK, BACKTICK] @ post"]) simp_all
  have "str_match True fence ?inp
          = Some [Some (substring ?inp (length pre) (length pre + length tag + length body + 8)),
                  map_option (\<lambda>(a, b). substring ?inp a b)
                    (Some (length pre + length tag + 4, length pre + length tag + 4 + length body))]"
    unfolding str_match_def exec_fence_found[OF assms(1,2,3)]
    by (simp only: option.case prod.case)
  also have "\<dots> = Some [Some (substring ?inp (length pre) (length pre + length tag + length body + 8)),
                         Some body]"
    by (simp only: option.map prod.case b)
  finally have "b = body" unfolding m by simp
  with r show ?thesis by simp
qed

lemma extractCodeBlock_first_block_same_line:
  assumes p: "\<forall>a z. pre @ [BACKTICK, BACKTICK] = a @ [BACKTICK, BACKTICK, BACKTICK] @ z \<longrightarrow> LF \<notin> set z"
    and t: "LF \<notin> set tag"
    and b: "\<not> includes_str body [LF, BACKTICK, BACKTICK, BACKTICK]"
    and n: "\<not> (\<exists>a m b c. post = a @ [BACKTICK, BACKTICK, BACKTICK] @ m @ LF # b @ [LF, BACKTICK, BACKTICK, BACKTICK] @ c)"
  shows "extractCodeBlock
           (pre @ [BACKTICK, BACKTICK, BACKTICK] @ tag @ LF # body @ [LF, BACKTICK, BACKTICK, BACKTICK] @ post)
         = Inr (Some body)"
proof -
  let ?B = "[BACKTICK, BACKTICK, BACKTICK]"
  have "pre @ ?B = pre @ ?B @ []" by simp
  then have "includes_str (pre @ ?B) ?B" unfolding includes_str_iff by blast
  from first_occurrence[OF this] obtain a c where
    ac: "pre @ ?B = a @ ?B @ c" "\<not> includes_str (a @ [BACKTICK, BACKTICK]) ?B" by auto
  have nl: "LF \<notin> set c"
  proof (cases "c = []")
    case True
    then show ?thesis by simp
  next
    case False
    have s1: "(pre @ [BACKTICK, BACKTICK]) @ [BACKTICK] = pre @ ?B" by simp
    have s2: "(a @ ?B @ butlast c) @ [last c] = a @ ?B @ c" using False by simp
    have "(pre @ [BACKTICK, BACKTICK]) @ [BACKTICK] = (a @ ?B @ butlast c) @ [last c]"
      by (rule trans[OF s1 trans[OF ac(1) s2[symmetric]]])
    then have e12: "pre @ [BACKTICK, BACKTICK] = a @ ?B @ butlast c \<and> BACKTICK = last c"
      by (rule iffD1[OF append1_eq_conv])
    from e12 have e1: "pre @ [BACKTICK, BACKTICK] = a @ ?B @ butlast c" by (rule conjunct1)
    from e12 have e2: "last c = BACKTICK" by (rule conjunct2[THEN sym])
    from p e1 have "LF \<notin> set (butlast c)" by blast
    moreover have "c = butlast c @ [last c]" using False by simp
    then have "set c = set (butlast c) \<union> {last c}"
      by (metis set_append list.set(2) list.set(1))
    ultimately show ?thesis using e2 by simp
  qed
  have "pre @ ?B @ tag @ LF # body @ [LF, BACKTICK, BACKTICK, BACKTICK] @ post
          = (pre @ ?B) @ tag @ LF # body @ [LF, BACKTICK, BACKTICK, BACKTICK] @ post" by simp
  also have "\<dots> = a @ ?B @ (c @ tag) @ LF # body @ [LF, BACKTICK, BACKTICK, BACKTICK] @ post"
    unfolding ac(1) by simp
  finally have eq: "pre @ ?B @ tag @ LF # body @ [LF, BACKTICK, BACKTICK, BACKTICK] @ post
          = a @ ?B @ (c @ tag) @ LF # body @ [LF, BACKTICK, BACKTICK, BACKTICK] @ post" .
  from nl t have "LF \<notin> set (c @ tag)" by simp
  from extractCodeBlock_first_block[OF ac(2) this b n] show ?thesis unfolding eq .
qed

lemma extractCodeBlock_Inr_first_block:
  assumes "extractCodeBlock r = Inr v"
  shows "\<exists>pre tag body post.
           r = pre @ [BACKTICK, BACKTICK, BACKTICK] @ tag @ LF # body @ [LF, BACKTICK, BACKTICK, BACKTICK] @ post
         \<and> \<not> includes_str (pre @ [BACKTICK, BACKTICK]) [BACKTICK, BACKTICK, BACKTICK]
         \<and> LF \<notin> set tag
         \<and> \<not> includes_str body [LF, BACKTICK, BACKTICK, BACKTICK]
         \<and> \<not> (\<exists>a m b c. post = a @ [BACKTICK, BACKTICK, BACKTICK] @ m @ LF # b @ [LF, BACKTICK, BACKTICK, BACKTICK] @ c)
         \<and> v = Some body"
proof -
  let ?B = "[BACKTICK, BACKTICK, BACKTICK]"
  let ?CL = "[LF, BACKTICK, BACKTICK, BACKTICK]"
  have one: "length (matchAllFrom True fence r 0) = 1"
    using assms extractCodeBlock_not_one[of r] by (cases "length (matchAllFrom True fence r 0) = 1") auto
  have unf: "matchAllFrom True fence r 0 =
     (case exec True fence r 0 of None \<Rightarrow> []
      | Some (i, e, c) \<Rightarrow> substring r i e # matchAllFrom True fence r (if e = i then Suc e else e))"
    by (rule matchAllFrom.simps)
  obtain i e c where ex: "exec True fence r 0 = Some (i, e, c)"
  proof (cases "exec True fence r 0")
    case None
    then have "matchAllFrom True fence r 0 = []" by (subst unf) simp
    with one show ?thesis by simp
  next
    case (Some x)
    then show ?thesis using that by (cases x) auto
  qed
  have "matchAllFrom True fence r 0
          = substring r i e # matchAllFrom True fence r (if e = i then Suc e else e)"
    by (subst unf) (simp only: ex option.case prod.case)
  with one have tl: "matchAllFrom True fence r (if e = i then Suc e else e) = []"
    by simp
  from ex have "search True fence r 0 = Some (i, e, c)" by (simp add: exec_def)
  from search_minimal[OF this] obtain pre rest where
    pr0: "r = pre @ rest" "i = 0 + length pre" "run True fence rest i i None = Some (e, c)"
    and mn0: "\<forall>a b. pre = a @ b \<and> b \<noteq> [] \<longrightarrow>
                 run True fence (b @ rest) (0 + length a) (0 + length a) None = None"
    by blast
  from pr0 have pr: "r = pre @ rest" "i = length pre" "run True fence rest i i None = Some (e, c)"
    by simp_all
  from mn0 have mn: "\<forall>a b. pre = a @ b \<and> b \<noteq> [] \<longrightarrow>
                 run True fence (b @ rest) (length a) (length a) None = None"
    by simp
  from run_fence_sound[OF pr(3)] obtain tag body post where
    sh: "rest = ?B @ tag @ LF # body @ ?CL @ post"
        "LF \<notin> set tag" "\<not> includes_str body ?CL"
        "e = i + length tag + length body + 8"
        "c = Some (i + length tag + 4, i + length tag + 4 + length body)" by blast
  have r: "r = pre @ ?B @ tag @ LF # body @ ?CL @ post" using pr(1) sh(1) by simp
  from extractCodeBlock_one[OF one] obtain w b where
    m: "str_match True fence r = Some [Some w, Some b]" and vb: "extractCodeBlock r = Inr (Some b)"
    by blast
  have bb: "substring r (length pre + length tag + 4) (length pre + length tag + 4 + length body) = body"
    by (rule substring_middle[where a = "pre @ ?B @ tag @ [LF]" and c = "?CL @ post"])
       (simp_all add: r)
  from m have "b = substring r (length pre + length tag + 4) (length pre + length tag + 4 + length body)"
    by (simp add: str_match_def ex sh(5) pr(2))
  with bb vb assms have v: "v = Some body" by simp
  have first: "\<not> includes_str (pre @ [BACKTICK, BACKTICK]) ?B"
  proof
    assume "includes_str (pre @ [BACKTICK, BACKTICK]) ?B"
    then obtain a z where az: "pre @ [BACKTICK, BACKTICK] = a @ ?B @ z"
      unfolding includes_str_iff by blast
    then have "length (pre @ [BACKTICK, BACKTICK]) = length (a @ ?B @ z)" by (rule arg_cong)
    then have la: "length a < length pre" by simp
    define b' where "b' = drop (length a) pre"
    have "take (length a) (pre @ [BACKTICK, BACKTICK]) = a" unfolding az by simp
    with la have "take (length a) pre = a" by simp
    then have pab: "pre = a @ b'" unfolding b'_def by (metis append_take_drop_id)
    from la have bne: "b' \<noteq> []" unfolding b'_def by simp
    from az pab have "b' @ [BACKTICK, BACKTICK] = ?B @ z" by simp
    then have "(b' @ [BACKTICK, BACKTICK]) @ BACKTICK # tag @ LF # body @ ?CL @ post
                 = (?B @ z) @ BACKTICK # tag @ LF # body @ ?CL @ post" by (rule arg_cong)
    then have e2: "b' @ rest = ?B @ (z @ BACKTICK # tag) @ LF # body @ ?CL @ post"
      unfolding sh(1) by simp
    have "run True fence (b' @ rest) (length a) (length a) None \<noteq> None"
      unfolding e2 by (rule run_fence_complete)
    moreover have "run True fence (b' @ rest) (length a) (length a) None = None"
      by (rule mn[rule_format, OF conjI[OF pab bne]])
    ultimately show False by (rule notE)
  qed
  have ei: "e \<noteq> i" using sh(4) by simp
  with tl have tl': "matchAllFrom True fence r e = []" by simp
  have "exec True fence r e = None"
  proof (cases "exec True fence r e")
    case None
    then show ?thesis .
  next
    case (Some x)
    obtain i' e' c' where "x = (i', e', c')" by (cases x) auto
    with Some have "matchAllFrom True fence r e \<noteq> []"
      by (subst matchAllFrom.simps) simp
    with tl' show ?thesis by simp
  qed
  moreover have le: "length r = e + length post" using r sh(4) pr(2) by simp
  moreover have "drop e r = post"
  proof -
    have "r = (pre @ ?B @ tag @ LF # body @ ?CL) @ post" using r by simp
    moreover have "length (pre @ ?B @ tag @ LF # body @ ?CL) = e" using sh(4) pr(2) by simp
    ultimately show ?thesis by (metis append_eq_conv_conj)
  qed
  ultimately have sp: "search True fence post e = None" by (simp add: exec_def)
  have last: "\<not> (\<exists>a m b c. post = a @ ?B @ m @ LF # b @ ?CL @ c)"
  proof
    assume "\<exists>a m b c. post = a @ ?B @ m @ LF # b @ ?CL @ c"
    then obtain a m b c where "post = a @ ?B @ m @ LF # b @ ?CL @ c" by blast
    with search_fence_block[of a m b c e] sp show False by simp
  qed
  show ?thesis
  proof (intro exI conjI)
    show "r = pre @ ?B @ tag @ LF # body @ ?CL @ post" by (rule r)
    show "\<not> includes_str (pre @ [BACKTICK, BACKTICK]) ?B" by (rule first)
    show "LF \<notin> set tag" by (rule sh(2))
    show "\<not> includes_str body ?CL" by (rule sh(3))
    show "\<not> (\<exists>a m b c. post = a @ ?B @ m @ LF # b @ ?CL @ c)" by (rule last)
    show "v = Some body" by (rule v)
  qed
qed

text \<open>
  C2, as the code has it, for the built extractor (the one with the \<^verbatim>\<open>s\<close> flag): it
  returns a content exactly on a text made of a prefix, a triple backtick, the rest of
  that line (the tag, without newline), a newline, the content, a newline immediately
  followed by a triple backtick, and a rest, where every triple backtick that begins
  before the opening one is on the opening one's line, no newline inside the content is
  immediately followed by a triple backtick, and the rest holds no further triple
  backtick followed by a newline and, later, by a newline with a triple backtick. What it
  returns is that content unchanged, whatever it is: its newlines are kept and nothing
  is trimmed at either end.
\<close>

theorem extractCodeBlock_returns_framed_content:
  "extractCodeBlock r = Inr v \<longleftrightarrow>
     (\<exists>pre tag body post.
         r = pre @ ''```'' @ tag @ [LF] @ body @ [LF] @ ''```'' @ post
       \<and> (\<forall>a z. pre @ ''``'' = a @ ''```'' @ z \<longrightarrow> LF \<notin> set z)
       \<and> LF \<notin> set tag
       \<and> \<not> includes_str body (LF # ''```'')
       \<and> \<not> (\<exists>a m b c. post = a @ ''```'' @ m @ [LF] @ b @ [LF] @ ''```'' @ c)
       \<and> v = Some body)"
proof
  assume "extractCodeBlock r = Inr v"
  from extractCodeBlock_Inr_first_block[OF this] obtain pre tag body post where
    d: "r = pre @ [BACKTICK, BACKTICK, BACKTICK] @ tag @ LF # body @ [LF, BACKTICK, BACKTICK, BACKTICK] @ post"
       "\<not> includes_str (pre @ [BACKTICK, BACKTICK]) [BACKTICK, BACKTICK, BACKTICK]"
       "LF \<notin> set tag"
       "\<not> includes_str body [LF, BACKTICK, BACKTICK, BACKTICK]"
       "\<not> (\<exists>a m b c. post = a @ [BACKTICK, BACKTICK, BACKTICK] @ m @ LF # b @ [LF, BACKTICK, BACKTICK, BACKTICK] @ c)"
       "v = Some body" by blast
  from d(2) have "\<forall>a z. pre @ [BACKTICK, BACKTICK] = a @ [BACKTICK, BACKTICK, BACKTICK] @ z \<longrightarrow> LF \<notin> set z"
    unfolding includes_str_iff by blast
  with d(1,3,4,5,6) show "\<exists>pre tag body post.
         r = pre @ ''```'' @ tag @ [LF] @ body @ [LF] @ ''```'' @ post
       \<and> (\<forall>a z. pre @ ''``'' = a @ ''```'' @ z \<longrightarrow> LF \<notin> set z)
       \<and> LF \<notin> set tag
       \<and> \<not> includes_str body (LF # ''```'')
       \<and> \<not> (\<exists>a m b c. post = a @ ''```'' @ m @ [LF] @ b @ [LF] @ ''```'' @ c)
       \<and> v = Some body"
    by (intro exI[of _ pre] exI[of _ tag] exI[of _ body] exI[of _ post]) simp
next
  assume "\<exists>pre tag body post.
         r = pre @ ''```'' @ tag @ [LF] @ body @ [LF] @ ''```'' @ post
       \<and> (\<forall>a z. pre @ ''``'' = a @ ''```'' @ z \<longrightarrow> LF \<notin> set z)
       \<and> LF \<notin> set tag
       \<and> \<not> includes_str body (LF # ''```'')
       \<and> \<not> (\<exists>a m b c. post = a @ ''```'' @ m @ [LF] @ b @ [LF] @ ''```'' @ c)
       \<and> v = Some body"
  then obtain pre tag body post where
    r: "r = pre @ ''```'' @ tag @ [LF] @ body @ [LF] @ ''```'' @ post"
    and p: "\<forall>a z. pre @ ''``'' = a @ ''```'' @ z \<longrightarrow> LF \<notin> set z"
    and t: "LF \<notin> set tag"
    and b: "\<not> includes_str body (LF # ''```'')"
    and n: "\<not> (\<exists>a m b c. post = a @ ''```'' @ m @ [LF] @ b @ [LF] @ ''```'' @ c)"
    and v: "v = Some body" by blast
  from p have p': "\<forall>a z. pre @ [BACKTICK, BACKTICK] = a @ [BACKTICK, BACKTICK, BACKTICK] @ z \<longrightarrow> LF \<notin> set z"
    by simp
  from b have b': "\<not> includes_str body [LF, BACKTICK, BACKTICK, BACKTICK]" by simp
  from n have n': "\<not> (\<exists>a m b c. post = a @ [BACKTICK, BACKTICK, BACKTICK] @ m @ LF # b @ [LF, BACKTICK, BACKTICK, BACKTICK] @ c)"
    by simp
  from r have r': "r = pre @ [BACKTICK, BACKTICK, BACKTICK] @ tag @ LF # body @ [LF, BACKTICK, BACKTICK, BACKTICK] @ post"
    by simp
  show "extractCodeBlock r = Inr v"
    unfolding r' v by (rule extractCodeBlock_first_block_same_line[OF p' t b' n'])
qed

theorem extractCodeBlock_returns_framed_content_witness:
  "extractCodeBlock
     (''see ``` '' @ ''```'' @ ''ts'' @ [LF] @ ('' a'' @ [LF, LF] @ ''  b '' @ [LF]) @ [LF] @ ''```''
        @ (LF # ''bye ``` end''))
   = Inr (Some ('' a'' @ [LF, LF] @ ''  b '' @ [LF]))"
proof -
  let ?pre = "''see ``` ''" and ?tag = "''ts''" and ?body = "'' a'' @ [LF, LF] @ ''  b '' @ [LF]"
  let ?post = "LF # ''bye ``` end''"
  have h1: "\<forall>a z. ?pre @ ''``'' = a @ ''```'' @ z \<longrightarrow> LF \<notin> set z"
  proof (intro allI impI)
    fix a z assume "?pre @ ''``'' = a @ ''```'' @ z"
    then have "set (?pre @ ''``'') = set (a @ ''```'' @ z)" by (rule arg_cong)
    moreover have "LF \<notin> set (?pre @ ''``'')" by simp
    ultimately have "LF \<notin> set (a @ ''```'' @ z)" by (simp only: not_False_eq_True)
    then show "LF \<notin> set z" by simp
  qed
  have h2: "LF \<notin> set ?tag" by simp
  have h3: "\<not> includes_str ?body (LF # ''```'')" by simp
  have h4: "\<not> (\<exists>a m b c. ?post = a @ ''```'' @ m @ [LF] @ b @ [LF] @ ''```'' @ c)"
  proof
    assume "\<exists>a m b c. ?post = a @ ''```'' @ m @ [LF] @ b @ [LF] @ ''```'' @ c"
    then obtain a m b c where "?post = a @ ''```'' @ m @ [LF] @ b @ [LF] @ ''```'' @ c" by blast
    then have "?post = (a @ ''```'' @ m @ [LF] @ b) @ (LF # ''```'') @ c" by simp
    then have "includes_str ?post (LF # ''```'')" unfolding includes_str_iff by blast
    then show False by simp
  qed
  have "\<exists>pre tag body post.
         ?pre @ ''```'' @ ?tag @ [LF] @ ?body @ [LF] @ ''```'' @ ?post
           = pre @ ''```'' @ tag @ [LF] @ body @ [LF] @ ''```'' @ post
       \<and> (\<forall>a z. pre @ ''``'' = a @ ''```'' @ z \<longrightarrow> LF \<notin> set z)
       \<and> LF \<notin> set tag
       \<and> \<not> includes_str body (LF # ''```'')
       \<and> \<not> (\<exists>a m b c. post = a @ ''```'' @ m @ [LF] @ b @ [LF] @ ''```'' @ c)
       \<and> Some ?body = Some body"
    using h1 h2 h3 h4 by (intro exI[of _ ?pre] exI[of _ ?tag] exI[of _ ?body] exI[of _ ?post] conjI) (rule refl | assumption)+
  then show ?thesis
    by (rule iffD2[OF extractCodeBlock_returns_framed_content])
qed

text \<open>
  Two texts with one fenced block each, of several lines, on which something else than
  the block's content is returned. In the first a line of prose before the block holds a
  triple backtick: the match starts there, and the opening fence line becomes the first
  line of the result. In the second a line of the content begins with four backticks: the
  match ends before it, and the result is the first line of the content only.
\<close>

theorem extractCodeBlock_earlier_backticks_or_early_close:
  "extractCodeBlock (''Use ``` to fence:'' @ [LF] @ ''```ts'' @ [LF] @ ''x'' @ [LF] @ ''y'' @ [LF] @ ''```'')
     = Inr (Some (''```ts'' @ [LF] @ ''x'' @ [LF] @ ''y''))
   \<and> extractCodeBlock (''```md'' @ [LF] @ ''a'' @ [LF] @ ''```` four'' @ [LF] @ ''b'' @ [LF] @ ''```'')
     = Inr (Some ''a'')"
  by code_simp

end
